theory Spec2Isabelle
  imports Main "HOL-Library.Word" "HOL-Library.Multiset"
begin

section \<open>The asynchronous thread pool of spdlog\<close>

text \<open>
  A shallow embedding of \<^verbatim>\<open>details/thread_pool.h\<close> and
  \<^verbatim>\<open>details/thread_pool-inl.h\<close>: the message envelope \<^verbatim>\<open>async_msg\<close>, the
  constructor and the destructor of \<^verbatim>\<open>thread_pool\<close>, the submission operations
  \<^verbatim>\<open>post_log\<close>, \<^verbatim>\<open>post_flush\<close> and \<^verbatim>\<open>post_async_msg_\<close>, and the drain loop
  \<^verbatim>\<open>worker_loop_\<close> with its body \<^verbatim>\<open>process_next_msg_\<close>. A name cannot end in an
  underscore here, so the members \<^verbatim>\<open>q_\<close> and \<^verbatim>\<open>threads_\<close> are \<open>m_q\<close> and
  \<open>m_threads\<close>, and \<^verbatim>\<open>post_async_msg_\<close>, \<^verbatim>\<open>worker_loop_\<close>,
  \<^verbatim>\<open>process_next_msg_\<close>, \<^verbatim>\<open>backend_sink_it_\<close> and \<^verbatim>\<open>backend_flush_\<close> lose theirs.
\<close>

subsection \<open>Failures\<close>

text \<open>
  Everything that ends a C++ call other than by returning: the exception of
  \<^verbatim>\<open>throw_spdlog_ex\<close>, an exception that leaves a callable the pool invokes but does
  not define, the dereference of an empty \<^verbatim>\<open>shared_ptr\<close> (undefined behaviour in C++,
  kept here as a failure of its own so that it is never mistaken for a normal return),
  and a failed \<^verbatim>\<open>assert\<close>.
\<close>

datatype fault =
    Spdlog_ex string
  | Callee_exception string
  | Null_dereference
  | Assertion_failed

type_synonym size_t = "64 word"

subsection \<open>The message envelope\<close>

text \<open>
  \<^verbatim>\<open>enum class async_msg_type { log, flush, terminate }\<close>. An \<^verbatim>\<open>enum class\<close> has the
  underlying type \<^verbatim>\<open>int\<close> and can hold every value of it, which is why the
  \<^verbatim>\<open>switch\<close> of \<^verbatim>\<open>process_next_msg_\<close> has a \<^verbatim>\<open>default\<close> branch. The tag is therefore
  modelled by its integer value, and the three enumerators are the constants 0, 1, 2.
\<close>

type_synonym async_msg_type = int

definition log :: async_msg_type where "log = 0"
definition flush :: async_msg_type where "flush = 1"
definition terminate :: async_msg_type where "terminate = 2"

text \<open>
  \<^verbatim>\<open>using async_logger_ptr = std::shared_ptr<spdlog::async_logger>\<close>: \<open>None\<close> is the
  empty pointer, \<open>Some a\<close> shares the logger object at address \<open>a\<close>.
\<close>

type_synonym async_logger_ptr = "nat option"

text \<open>
  Modelled from the spec: \<^verbatim>\<open>details::log_msg\<close> (\<^verbatim>\<open>log_msg.h\<close> is not among the
  sources). A log record whose texts are views into memory owned by the producer: a
  view is an address and a length, and the bytes are read from the memory.
\<close>

type_synonym memory = "nat \<Rightarrow> char"

record string_view =
  sv_data :: nat
  sv_size :: nat

definition view_bytes :: "memory \<Rightarrow> string_view \<Rightarrow> string" where
  "view_bytes mem v = map mem [sv_data v ..< sv_data v + sv_size v]"

record log_msg =
  logger_name :: string_view
  level :: nat
  time :: nat
  payload :: string_view

text \<open>
  Modelled from the spec: \<^verbatim>\<open>details::log_msg_buffer\<close> (\<^verbatim>\<open>log_msg_buffer.h\<close> is not
  among the sources), "an owned, self-contained copy of a log record": the texts are
  held as bytes of the buffer itself. \<open>log_msg_buffer_copy\<close> is the constructor from a
  \<^verbatim>\<open>log_msg\<close>, \<open>log_msg_buffer_default\<close> the default constructor.
\<close>

record log_msg_buffer =
  buf_logger_name :: string
  buf_level :: nat
  buf_time :: nat
  buf_payload :: string

definition log_msg_buffer_copy :: "memory \<Rightarrow> log_msg \<Rightarrow> log_msg_buffer" where
  "log_msg_buffer_copy mem m =
     \<lparr>buf_logger_name = view_bytes mem (logger_name m),
      buf_level = level m,
      buf_time = time m,
      buf_payload = view_bytes mem (payload m)\<rparr>"

definition log_msg_buffer_default :: log_msg_buffer where
  "log_msg_buffer_default =
     \<lparr>buf_logger_name = [], buf_level = 0, buf_time = 0, buf_payload = []\<rparr>"

text \<open>\<^verbatim>\<open>struct async_msg : log_msg_buffer\<close> with its two members.\<close>

record async_msg = log_msg_buffer +
  msg_type :: async_msg_type
  worker_ptr :: async_logger_ptr

text \<open>
  Moving a \<^verbatim>\<open>shared_ptr\<close>: the new pointer holds what the source held, and the source
  is left empty. The result is (new pointer, source after the move).
\<close>

definition move_ptr :: "async_logger_ptr \<Rightarrow> async_logger_ptr \<times> async_logger_ptr" where
  "move_ptr p = (p, None)"

text \<open>\<^verbatim>\<open>async_msg() = default\<close>: the tag's default member initialiser is \<^verbatim>\<open>log\<close>.\<close>

definition async_msg_default :: async_msg where
  "async_msg_default =
     log_msg_buffer.extend log_msg_buffer_default
       (async_msg.fields log None)"

text \<open>
  \<^verbatim>\<open>async_msg(async_logger_ptr &&worker, async_msg_type the_type, const log_msg &m)\<close>.
  The result is the envelope and the caller's pointer after the call.
\<close>

definition async_msg_from_log ::
  "memory \<Rightarrow> async_logger_ptr \<Rightarrow> async_msg_type \<Rightarrow> log_msg \<Rightarrow> async_msg \<times> async_logger_ptr" where
  "async_msg_from_log mem worker the_type m =
     (let (held, worker') = move_ptr worker
      in (log_msg_buffer.extend (log_msg_buffer_copy mem m)
            (async_msg.fields the_type held), worker'))"

text \<open>\<^verbatim>\<open>async_msg(async_logger_ptr &&worker, async_msg_type the_type)\<close>.\<close>

definition async_msg_of_type ::
  "async_logger_ptr \<Rightarrow> async_msg_type \<Rightarrow> async_msg \<times> async_logger_ptr" where
  "async_msg_of_type worker the_type =
     (let (held, worker') = move_ptr worker
      in (log_msg_buffer.extend log_msg_buffer_default
            (async_msg.fields the_type held), worker'))"

text \<open>\<^verbatim>\<open>explicit async_msg(async_msg_type the_type) : async_msg{nullptr, the_type}\<close>.\<close>

definition async_msg_tag_only :: "async_msg_type \<Rightarrow> async_msg" where
  "async_msg_tag_only the_type = fst (async_msg_of_type None the_type)"

subsection \<open>The bounded queue\<close>

text \<open>
  Modelled from the spec: \<^verbatim>\<open>details::mpmc_blocking_queue\<close> (\<^verbatim>\<open>mpmc_blocking_q.h\<close> is
  not among the sources). The spec's section 4.1: a FIFO of at most \<open>capacity\<close> items
  and a counter of discarded items; every operation runs under the queue's mutex, so
  each is one atomic step. A call that suspends its thread has the value \<open>None\<close>: the
  step is not enabled in that state, and the caller still holds the item.
\<close>

record 'a mpmc_blocking_queue =
  max_items :: nat
  items :: "'a list"
  overrun_count :: nat

definition mpmc_blocking_queue_ctor :: "nat \<Rightarrow> 'a mpmc_blocking_queue" where
  "mpmc_blocking_queue_ctor n = \<lparr>max_items = n, items = [], overrun_count = 0\<rparr>"

definition full :: "'a mpmc_blocking_queue \<Rightarrow> bool" where
  "full q \<longleftrightarrow> max_items q \<le> length (items q)"

text \<open>
  "If full, the calling thread suspends until space frees; then inserts at the tail.
  Never drops data."
\<close>

definition enqueue :: "'a \<Rightarrow> 'a mpmc_blocking_queue \<Rightarrow> 'a mpmc_blocking_queue option" where
  "enqueue item q = (if full q then None else Some (q\<lparr>items := items q @ [item]\<rparr>))"

text \<open>
  "If full, immediately discards the item and increments the overrun count; otherwise
  behaves like the blocking variant. Returns without suspending."
\<close>

definition enqueue_nowait :: "'a \<Rightarrow> 'a mpmc_blocking_queue \<Rightarrow> 'a mpmc_blocking_queue" where
  "enqueue_nowait item q =
     (if full q then q\<lparr>overrun_count := overrun_count q + 1\<rparr>
      else q\<lparr>items := items q @ [item]\<rparr>)"

text \<open>
  "Suspends the calling thread until an item is available or the timeout elapses; on
  success removes and returns the head item; on timeout returns a no-item result."
  The call returns at the timeout exactly when the queue is still empty then; the
  length of the timeout is not modelled. The first argument is the out-parameter
  \<^verbatim>\<open>popped_item\<close>, left as it is when nothing is dequeued.
\<close>

definition dequeue_for ::
  "'a \<Rightarrow> 'a mpmc_blocking_queue \<Rightarrow> bool \<times> 'a \<times> 'a mpmc_blocking_queue" where
  "dequeue_for popped_item q =
     (case items q of
        [] \<Rightarrow> (False, popped_item, q)
      | x # xs \<Rightarrow> (True, x, q\<lparr>items := xs\<rparr>))"

definition overrun_counter_q :: "'a mpmc_blocking_queue \<Rightarrow> nat" where
  "overrun_counter_q q = overrun_count q"

definition size_q :: "'a mpmc_blocking_queue \<Rightarrow> nat" where
  "size_q q = length (items q)"

subsection \<open>The pool and its constructor\<close>

text \<open>
  A \<^verbatim>\<open>std::thread\<close> of \<^verbatim>\<open>threads_\<close> runs the lambda
  \<^verbatim>\<open>[this, on_thread_start] { on_thread_start(); this->worker_loop_(); }\<close>.
  \<open>Starting hook\<close>: started, its captured hook not yet run; \<open>Running\<close>: inside
  \<^verbatim>\<open>worker_loop_\<close>; \<open>Exited\<close>: the lambda has returned; \<open>Joined\<close>: \<^verbatim>\<open>join()\<close> has
  returned for it. The hook works on the state \<open>'w\<close> of everything outside the pool
  and may throw.
\<close>

type_synonym 'w effect = "'w \<Rightarrow> fault option \<times> 'w"

datatype 'w thread = Starting "'w effect" | Running | Exited | Joined

record 'w thread_pool =
  m_q :: "async_msg mpmc_blocking_queue"
  m_threads :: "'w thread list"

text \<open>
  The loop \<^verbatim>\<open>for (size_t i = 0; i < threads_n; i++) threads_.emplace_back(...)\<close>
  on 64-bit \<^verbatim>\<open>size_t\<close>. Starting a thread is taken to succeed: the operating system
  running out of threads is not modelled.
\<close>

function spawn_workers :: "size_t \<Rightarrow> size_t \<Rightarrow> 'w effect \<Rightarrow> 'w thread list \<Rightarrow> 'w thread list" where
  "spawn_workers i threads_n on_thread_start ts =
     (if i < threads_n
      then spawn_workers (i + 1) threads_n on_thread_start (ts @ [Starting on_thread_start])
      else ts)"
  by pat_completeness auto
termination
proof (relation "measure (\<lambda>(i, n, h, ts). unat n - unat i)")
  show "wf (measure (\<lambda>(i :: size_t, n :: size_t, h :: 'w effect, ts :: 'w thread list). unat n - unat i))"
    by simp
next
  fix i threads_n :: size_t and on_thread_start :: "'w effect" and ts :: "'w thread list"
  assume lt: "i < threads_n"
  then have "unat i < unat threads_n"
    by (simp add: word_less_nat_alt)
  moreover have "unat threads_n < 2 ^ 64"
    using unsigned_less [of threads_n] by simp
  ultimately have "unat i + 1 < 2 ^ 64" and "unat i < unat threads_n"
    by simp_all
  then have "unat (i + 1) = unat i + 1" and "unat i < unat threads_n"
    by (simp_all add: unat_word_ariths)
  then show "((i + 1, threads_n, on_thread_start, ts @ [Starting on_thread_start]),
                    (i, threads_n, on_thread_start, ts))
                   \<in> measure (\<lambda>(i, n, h, ts). unat n - unat i)"
    by simp
qed

declare spawn_workers.simps [simp del]

text \<open>
  \<^verbatim>\<open>thread_pool::thread_pool(size_t q_max_items, size_t threads_n,
  std::function<void()> on_thread_start)\<close>. When the constructor throws, \<open>Inl\<close> carries
  the exception together with the members as they are at the \<^verbatim>\<open>throw\<close> (unwinding then
  destroys them): the threads started up to that point are the elements of \<open>threads_\<close>.
\<close>

definition thread_pool_ctor ::
  "size_t \<Rightarrow> size_t \<Rightarrow> 'w effect \<Rightarrow> (fault \<times> 'w thread_pool) + 'w thread_pool" where
  "thread_pool_ctor q_max_items threads_n on_thread_start =
     (let this = \<lparr>m_q = mpmc_blocking_queue_ctor (unat q_max_items), m_threads = []\<rparr>
      in if threads_n = 0 \<or> threads_n > 1000
         then Inl (Spdlog_ex ''spdlog::thread_pool(): invalid threads_n param (valid range is 1-1000)'', this)
         else Inr (this\<lparr>m_threads := spawn_workers 0 threads_n on_thread_start (m_threads this)\<rparr>))"

text \<open>
  \<^verbatim>\<open>thread_pool(size_t q_max_items, size_t threads_n)\<close> delegates with the empty hook
  \<^verbatim>\<open>[] {}\<close>.
\<close>

definition thread_pool_ctor2 ::
  "size_t \<Rightarrow> size_t \<Rightarrow> (fault \<times> 'w thread_pool) + 'w thread_pool" where
  "thread_pool_ctor2 q_max_items threads_n =
     thread_pool_ctor q_max_items threads_n (\<lambda>w. (None, w))"

subsection \<open>Submission\<close>

text \<open>
  Modelled from the spec: \<^verbatim>\<open>async_overflow_policy\<close> (\<^verbatim>\<open>async.h\<close> is not among the
  sources). The spec's section 4.5: "exactly two policies, chosen per call by the
  producer", block and discard-on-full. The code names only
  \<^verbatim>\<open>async_overflow_policy::block\<close>.
\<close>

datatype async_overflow_policy = block | discard_on_full

text \<open>
  \<^verbatim>\<open>thread_pool::post_async_msg_\<close>. \<open>None\<close>: the caller is suspended inside
  \<^verbatim>\<open>q_.enqueue\<close>.
\<close>

definition post_async_msg ::
  "async_msg \<Rightarrow> async_overflow_policy \<Rightarrow> 'w thread_pool \<Rightarrow> 'w thread_pool option" where
  "post_async_msg new_msg overflow_policy this =
     (if overflow_policy = block
      then (case enqueue new_msg (m_q this) of
              None \<Rightarrow> None
            | Some q' \<Rightarrow> Some (this\<lparr>m_q := q'\<rparr>))
      else Some (this\<lparr>m_q := enqueue_nowait new_msg (m_q this)\<rparr>))"

text \<open>
  \<^verbatim>\<open>thread_pool::post_log\<close>. The first argument is the producer's memory, which the
  views of \<^verbatim>\<open>msg\<close> point into. \<^verbatim>\<open>worker_ptr\<close> (here \<open>worker\<close>) is passed by rvalue reference, so the
  call changes the caller's pointer: the result holds the caller's pointer after the
  call and the pool.
\<close>

definition post_log ::
  "memory \<Rightarrow> async_logger_ptr \<Rightarrow> log_msg \<Rightarrow> async_overflow_policy \<Rightarrow> 'w thread_pool
   \<Rightarrow> (async_logger_ptr \<times> 'w thread_pool) option" where
  "post_log mem worker msg overflow_policy this =
     (let (async_m, worker') = async_msg_from_log mem worker log msg
      in case post_async_msg async_m overflow_policy this of
           None \<Rightarrow> None
         | Some this' \<Rightarrow> Some (worker', this'))"

text \<open>\<^verbatim>\<open>thread_pool::post_flush\<close>.\<close>

definition post_flush ::
  "async_logger_ptr \<Rightarrow> async_overflow_policy \<Rightarrow> 'w thread_pool
   \<Rightarrow> (async_logger_ptr \<times> 'w thread_pool) option" where
  "post_flush worker overflow_policy this =
     (let (async_m, worker') = async_msg_of_type worker flush
      in case post_async_msg async_m overflow_policy this of
           None \<Rightarrow> None
         | Some this' \<Rightarrow> Some (worker', this'))"

definition overrun_counter :: "'w thread_pool \<Rightarrow> nat" where
  "overrun_counter this = overrun_counter_q (m_q this)"

definition queue_size :: "'w thread_pool \<Rightarrow> nat" where
  "queue_size this = size_q (m_q this)"

subsection \<open>The drain loop\<close>

text \<open>
  \<^verbatim>\<open>async_logger::backend_sink_it_\<close> and \<^verbatim>\<open>async_logger::backend_flush_\<close> are
  declared in \<^verbatim>\<open>async_logger.h\<close>, which is not among the sources; the drain loop only
  calls them. They are parameters of the model: given the address of the logger, each
  is an effect on the state \<open>'w\<close> outside the pool that returns or throws.
\<close>

record 'w front_end =
  backend_sink_it :: "nat \<Rightarrow> log_msg_buffer \<Rightarrow> 'w effect"
  backend_flush :: "nat \<Rightarrow> 'w effect"

text \<open>
  \<^verbatim>\<open>thread_pool::process_next_msg_\<close>. The result is \<open>Inr b\<close> when the call returns
  \<open>b\<close>, and \<open>Inl f\<close> when it is left by the failure \<open>f\<close>. The first argument says
  whether \<^verbatim>\<open>NDEBUG\<close> is defined: \<^verbatim>\<open>assert(false)\<close> then does nothing, and control
  reaches the final \<^verbatim>\<open>return true\<close>.
\<close>

definition process_next_msg ::
  "bool \<Rightarrow> 'w front_end \<Rightarrow> 'w thread_pool \<times> 'w \<Rightarrow> (fault + bool) \<times> 'w thread_pool \<times> 'w" where
  "process_next_msg ndebug fe s =
     (let (this, w) = s;
          (dequeued, incoming_async_msg, q') = dequeue_for async_msg_default (m_q this);
          this' = this\<lparr>m_q := q'\<rparr>
      in if \<not> dequeued then (Inr True, this', w)
         else if msg_type incoming_async_msg = log then
           (case worker_ptr incoming_async_msg of
              None \<Rightarrow> (Inl Null_dereference, this', w)
            | Some a \<Rightarrow>
                (case backend_sink_it fe a (log_msg_buffer.truncate incoming_async_msg) w of
                   (Some f, w') \<Rightarrow> (Inl f, this', w')
                 | (None, w') \<Rightarrow> (Inr True, this', w')))
         else if msg_type incoming_async_msg = flush then
           (case worker_ptr incoming_async_msg of
              None \<Rightarrow> (Inl Null_dereference, this', w)
            | Some a \<Rightarrow>
                (case backend_flush fe a w of
                   (Some f, w') \<Rightarrow> (Inl f, this', w')
                 | (None, w') \<Rightarrow> (Inr True, this', w')))
         else if msg_type incoming_async_msg = terminate then (Inr False, this', w)
         else if ndebug then (Inr True, this', w)
         else (Inl Assertion_failed, this', w))"

text \<open>
  \<^verbatim>\<open>thread_pool::worker_loop_\<close>: \<^verbatim>\<open>while (process_next_msg_()) {}\<close>. Run by one
  thread with nobody else touching the queue, the loop need not return (on an empty
  queue every iteration times out), so it is a partial function: \<open>None\<close> is a loop
  that runs forever, \<open>Some (None, s)\<close> a loop that has returned in state \<open>s\<close>, and
  \<open>Some (Some f, s)\<close> a loop left by the failure \<open>f\<close>.
\<close>

partial_function (option) worker_loop ::
  "bool \<Rightarrow> 'w front_end \<Rightarrow> 'w thread_pool \<times> 'w \<Rightarrow> (fault option \<times> 'w thread_pool \<times> 'w) option" where
  "worker_loop ndebug fe s =
     (case process_next_msg ndebug fe s of
        (Inl f, s') \<Rightarrow> Some (Some f, s')
      | (Inr continue, s') \<Rightarrow> if continue then worker_loop ndebug fe s' else Some (None, s'))"


subsection \<open>The destructor and the threads of a running pool\<close>

text \<open>
  The pool is used by several threads at once: producers calling \<^verbatim>\<open>post_log\<close> and
  \<^verbatim>\<open>post_flush\<close>, the workers, and the thread that destroys the pool. The queue's
  operations are atomic, so a run of the program is an interleaving of steps, each
  taken by one thread:
  \<^item> \<open>Worker i\<close>: thread \<open>i\<close> of \<^verbatim>\<open>threads_\<close> runs its start hook, or one iteration
    of \<^verbatim>\<open>worker_loop_\<close> (one call of \<^verbatim>\<open>process_next_msg_\<close>);
  \<^item> \<open>Producer_log\<close>, \<open>Producer_flush\<close>: a producer's call of \<^verbatim>\<open>post_log\<close> or
    \<^verbatim>\<open>post_flush\<close> returns;
  \<^item> \<open>Destructor\<close>: the destroying thread enters \<^verbatim>\<open>~thread_pool\<close>, or runs one
    iteration of one of its two loops, or leaves it.
  A step has the value \<open>None\<close> in a state where its thread is suspended (a blocking
  enqueue on a full queue, a \<^verbatim>\<open>join\<close> of a thread that has not returned) or cannot
  run at all.
\<close>

text \<open>
  Where the destroying thread is: not yet in the destructor, at the head of the first
  loop with index \<open>i\<close>, at the head of the second loop about to join the thread of
  index \<open>j\<close>, or past the destructor.
\<close>

datatype dtor_pc = Alive | Posting nat | Joining nat | Destroyed

text \<open>
  What has happened so far, in order: a call \<^verbatim>\<open>post_async_msg_\<close> made by the
  destructor has returned; a \<^verbatim>\<open>join\<close> made by the destructor has returned; worker
  \<open>i\<close> has dequeued an envelope; the thread function of worker \<open>i\<close> has returned.
\<close>

datatype event =
    Posted async_msg async_overflow_policy
  | Joined_thread nat
  | Dequeued nat async_msg
  | Returned nat

record 'w system =
  pool :: "'w thread_pool"
  outside :: 'w
  dtor :: dtor_pc
  aborted :: "fault option"
  history :: "event list"

datatype action =
    Worker nat
  | Producer_log memory async_logger_ptr log_msg async_overflow_policy
  | Producer_flush async_logger_ptr async_overflow_policy
  | Destructor

text \<open>The envelope a worker is about to dequeue, as an event of the history.\<close>

definition dequeue_events :: "nat \<Rightarrow> 'w thread_pool \<Rightarrow> event list" where
  "dequeue_events i this =
     (case items (m_q this) of [] \<Rightarrow> [] | m # rest \<Rightarrow> [Dequeued i m])"

text \<open>
  One step of the thread at index \<open>i\<close>: the lambda
  \<^verbatim>\<open>[this, on_thread_start] { on_thread_start(); this->worker_loop_(); }\<close>. An exception
  that leaves the thread function ends the whole program (\<^verbatim>\<open>std::terminate\<close>):
  \<open>aborted\<close> records it, and no thread runs after that.
\<close>

definition worker_step ::
  "bool \<Rightarrow> 'w front_end \<Rightarrow> nat \<Rightarrow> 'w system \<Rightarrow> 'w system option" where
  "worker_step ndebug fe i s =
     (if length (m_threads (pool s)) \<le> i then None
      else case m_threads (pool s) ! i of
        Starting on_thread_start \<Rightarrow>
          (case on_thread_start (outside s) of
             (Some f, w') \<Rightarrow> Some (s\<lparr>outside := w', aborted := Some f\<rparr>)
           | (None, w') \<Rightarrow>
               Some (s\<lparr>pool := (pool s)\<lparr>m_threads := (m_threads (pool s))[i := Running]\<rparr>,
                       outside := w'\<rparr>))
      | Running \<Rightarrow>
          (case process_next_msg ndebug fe (pool s, outside s) of
             (Inl f, this', w') \<Rightarrow>
               Some (s\<lparr>pool := this', outside := w', aborted := Some f,
                       history := history s @ dequeue_events i (pool s)\<rparr>)
           | (Inr continue, this', w') \<Rightarrow>
               if continue
               then Some (s\<lparr>pool := this', outside := w',
                            history := history s @ dequeue_events i (pool s)\<rparr>)
               else Some (s\<lparr>pool := this'\<lparr>m_threads := (m_threads this')[i := Exited]\<rparr>,
                            outside := w',
                            history := history s @ dequeue_events i (pool s) @ [Returned i]\<rparr>))
      | Exited \<Rightarrow> None
      | Joined \<Rightarrow> None)"

text \<open>
  \<^verbatim>\<open>thread_pool::~thread_pool\<close>, one loop iteration at a time:
  \<^verbatim>\<open>for (size_t i = 0; i < threads_.size(); i++)
      post_async_msg_(async_msg(async_msg_type::terminate), async_overflow_policy::block);
  for (auto &t : threads_) t.join();\<close>
  The body is wrapped in \<^verbatim>\<open>SPDLOG_TRY\<close> and \<^verbatim>\<open>SPDLOG_CATCH_STD\<close> (a \<^verbatim>\<open>try\<close> whose
  handler swallows a \<^verbatim>\<open>std::exception\<close>): \<^verbatim>\<open>join\<close> on a thread that is not joinable
  throws one, which ends the destructor.
\<close>

definition destructor_step :: "'w system \<Rightarrow> 'w system option" where
  "destructor_step s =
     (case dtor s of
        Alive \<Rightarrow> Some (s\<lparr>dtor := Posting 0\<rparr>)
      | Posting i \<Rightarrow>
          if i < length (m_threads (pool s))
          then (case post_async_msg (async_msg_tag_only terminate) block (pool s) of
                  None \<Rightarrow> None
                | Some this' \<Rightarrow>
                    Some (s\<lparr>pool := this', dtor := Posting (i + 1),
                            history := history s @ [Posted (async_msg_tag_only terminate) block]\<rparr>))
          else Some (s\<lparr>dtor := Joining 0\<rparr>)
      | Joining j \<Rightarrow>
          if j < length (m_threads (pool s))
          then (case m_threads (pool s) ! j of
                  Starting on_thread_start \<Rightarrow> None
                | Running \<Rightarrow> None
                | Exited \<Rightarrow>
                    Some (s\<lparr>pool := (pool s)\<lparr>m_threads := (m_threads (pool s))[j := Joined]\<rparr>,
                            dtor := Joining (j + 1),
                            history := history s @ [Joined_thread j]\<rparr>)
                | Joined \<Rightarrow> Some (s\<lparr>dtor := Destroyed\<rparr>))
          else Some (s\<lparr>dtor := Destroyed\<rparr>)
      | Destroyed \<Rightarrow> None)"

text \<open>
  A producer's call returns. The pool must still exist; nothing else about the
  destructor is consulted, as \<^verbatim>\<open>post_log\<close> and \<^verbatim>\<open>post_flush\<close> consult nothing.
\<close>

definition producer_step ::
  "(async_logger_ptr \<times> 'w thread_pool) option \<Rightarrow> 'w system \<Rightarrow> 'w system option" where
  "producer_step call s =
     (if dtor s = Destroyed then None
      else case call of
             None \<Rightarrow> None
           | Some (worker', this') \<Rightarrow> Some (s\<lparr>pool := this'\<rparr>))"

definition step :: "bool \<Rightarrow> 'w front_end \<Rightarrow> action \<Rightarrow> 'w system \<Rightarrow> 'w system option" where
  "step ndebug fe a s =
     (if aborted s \<noteq> None then None
      else case a of
        Worker i \<Rightarrow> worker_step ndebug fe i s
      | Producer_log mem worker msg overflow_policy \<Rightarrow>
          producer_step (post_log mem worker msg overflow_policy (pool s)) s
      | Producer_flush worker overflow_policy \<Rightarrow>
          producer_step (post_flush worker overflow_policy (pool s)) s
      | Destructor \<Rightarrow> destructor_step s)"

text \<open>A run: the steps of a schedule, one after the other.\<close>

fun run :: "bool \<Rightarrow> 'w front_end \<Rightarrow> action list \<Rightarrow> 'w system \<Rightarrow> 'w system option" where
  "run ndebug fe [] s = Some s"
| "run ndebug fe (a # as) s =
     (case step ndebug fe a s of None \<Rightarrow> None | Some s' \<Rightarrow> run ndebug fe as s')"

text \<open>The program state right after a successful construction of the pool.\<close>

definition boot :: "size_t \<Rightarrow> size_t \<Rightarrow> 'w effect \<Rightarrow> 'w \<Rightarrow> 'w system option" where
  "boot q_max_items threads_n on_thread_start w =
     (case thread_pool_ctor q_max_items threads_n on_thread_start of
        Inl failure \<Rightarrow> None
      | Inr this \<Rightarrow>
          Some \<lparr>pool = this, outside = w, dtor = Alive, aborted = None, history = []\<rparr>)"

text \<open>What the history says about the destructor and about one worker.\<close>

fun by_destructor :: "event \<Rightarrow> bool" where
  "by_destructor (Posted m overflow_policy) = True"
| "by_destructor (Joined_thread j) = True"
| "by_destructor (Dequeued i m) = False"
| "by_destructor (Returned i) = False"

definition terminates_received :: "nat \<Rightarrow> event list \<Rightarrow> nat" where
  "terminates_received i h =
     length (filter (\<lambda>e. case e of Dequeued i' m \<Rightarrow> i' = i \<and> msg_type m = terminate | _ \<Rightarrow> False) h)"

definition exits :: "nat \<Rightarrow> event list \<Rightarrow> nat" where
  "exits i h = length (filter (\<lambda>e. e = Returned i) h)"


subsection \<open>Invariants of a running pool\<close>

text \<open>
  Every queued envelope carries one of the three enumerators, and a queued terminate
  envelope has the empty target.
\<close>

definition queue_ok :: "async_msg list \<Rightarrow> bool" where
  "queue_ok ms \<longleftrightarrow>
     (\<forall>m \<in> set ms. (msg_type m = log \<or> msg_type m = flush \<or> msg_type m = terminate)
        \<and> (msg_type m = terminate \<longrightarrow> worker_ptr m = None))"

subsection \<open>Concrete inputs\<close>

text \<open>
  A start hook that does nothing; a front end that records what it is given in the
  outside state (a list of texts); a front end whose operations throw; a producer's
  memory holding a text, and a log record with views into it; the three kinds of
  envelope; a pool given by its capacity, queue content and threads.
\<close>

definition no_hook :: "string list effect" where
  "no_hook = (\<lambda>w. (None, w))"

definition recording_front_end :: "string list front_end" where
  "recording_front_end =
     \<lparr>backend_sink_it = (\<lambda>a m w. (None, w @ [buf_payload m])),
      backend_flush = (\<lambda>a w. (None, w @ [''<flush>'']))\<rparr>"

definition throwing_front_end :: "string list front_end" where
  "throwing_front_end =
     \<lparr>backend_sink_it = (\<lambda>a m w. (Some (Callee_exception ''write failed''), w)),
      backend_flush = (\<lambda>a w. (Some (Callee_exception ''flush failed''), w))\<rparr>"

definition memory_of :: "string \<Rightarrow> memory" where
  "memory_of text a = (if a < length text then text ! a else CHR 0x00)"

definition hello :: log_msg where
  "hello = \<lparr>logger_name = \<lparr>sv_data = 0, sv_size = 3\<rparr>, level = 2, time = 17,
            payload = \<lparr>sv_data = 4, sv_size = 5\<rparr>\<rparr>"

definition hello_envelope :: async_msg where
  "hello_envelope =
     \<lparr>buf_logger_name = ''app'', buf_level = 2, buf_time = 17, buf_payload = ''hello'',
      msg_type = log, worker_ptr = Some 7\<rparr>"

definition flush_envelope :: async_msg where
  "flush_envelope =
     \<lparr>buf_logger_name = [], buf_level = 0, buf_time = 0, buf_payload = [],
      msg_type = flush, worker_ptr = Some 7\<rparr>"

definition terminate_envelope :: async_msg where
  "terminate_envelope =
     \<lparr>buf_logger_name = [], buf_level = 0, buf_time = 0, buf_payload = [],
      msg_type = terminate, worker_ptr = None\<rparr>"

definition pool_holding :: "nat \<Rightarrow> nat \<Rightarrow> async_msg list \<Rightarrow> 'w thread list \<Rightarrow> 'w thread_pool" where
  "pool_holding capacity discarded ms ts =
     \<lparr>m_q = \<lparr>max_items = capacity, items = ms, overrun_count = discarded\<rparr>, m_threads = ts\<rparr>"


text \<open>
  How far the destructor has come, for a pool of \<open>k\<close> threads: the number of its
  calls of \<^verbatim>\<open>post_async_msg_\<close> that have returned, and the number of its joins that
  have returned.
\<close>

definition posts_made :: "nat \<Rightarrow> dtor_pc \<Rightarrow> nat" where
  "posts_made k pc = (case pc of Alive \<Rightarrow> 0 | Posting i \<Rightarrow> i | Joining j \<Rightarrow> k | Destroyed \<Rightarrow> k)"

definition joins_made :: "nat \<Rightarrow> dtor_pc \<Rightarrow> nat" where
  "joins_made k pc = (case pc of Alive \<Rightarrow> 0 | Posting i \<Rightarrow> 0 | Joining j \<Rightarrow> j | Destroyed \<Rightarrow> k)"

text \<open>1 for a thread whose thread function has returned, 0 for any other.\<close>

definition gone :: "'w thread \<Rightarrow> nat" where
  "gone t = (case t of Starting on_thread_start \<Rightarrow> 0 | Running \<Rightarrow> 0 | Exited \<Rightarrow> 1 | Joined \<Rightarrow> 1)"

definition terminates_queued :: "'w thread_pool \<Rightarrow> nat" where
  "terminates_queued this = length (filter (\<lambda>m. msg_type m = terminate) (items (m_q this)))"

text \<open>
  The invariant of a pool of \<open>k\<close> threads: the queue and the dequeued envelopes are
  well-formed; the destructor's events are its posts, all of the terminate envelope
  with the block policy, followed by its joins in the order of \<^verbatim>\<open>threads_\<close>; the
  joined threads are those before the join index; every terminate envelope posted is
  in the queue or has ended one thread; and a thread has received one terminate
  envelope and returned once if its function has returned, and none otherwise.
\<close>

definition pool_inv :: "nat \<Rightarrow> 'w system \<Rightarrow> bool" where
  "pool_inv k s \<longleftrightarrow>
     length (m_threads (pool s)) = k
   \<and> queue_ok (items (m_q (pool s)))
   \<and> (\<forall>i m. Dequeued i m \<in> set (history s) \<longrightarrow> queue_ok [m])
   \<and> filter by_destructor (history s) =
       replicate (posts_made k (dtor s)) (Posted (async_msg_tag_only terminate) block)
       @ map Joined_thread [0..<joins_made k (dtor s)]
   \<and> posts_made k (dtor s) \<le> k
   \<and> joins_made k (dtor s) \<le> k
   \<and> (\<forall>i<k. m_threads (pool s) ! i = Joined \<longleftrightarrow> i < joins_made k (dtor s))
   \<and> terminates_queued (pool s) + sum_list (map gone (m_threads (pool s))) = posts_made k (dtor s)
   \<and> (\<forall>i<k. terminates_received i (history s) = gone (m_threads (pool s) ! i)
          \<and> exits i (history s) = gone (m_threads (pool s) ! i))"

text \<open>
  A run of a pool of two workers and capacity 4: both workers start, a record is
  logged, the destructor begins and posts once, a flush is submitted, the destructor
  posts again (\<open>busy_schedule\<close>, reaching \<open>busy_system\<close>); then the workers
  drain the queue and the destructor joins them (\<open>rest_schedule\<close>, reaching
  \<open>torn_down\<close>).
\<close>

definition fresh_system :: "string list system" where
  "fresh_system =
     \<lparr>pool = pool_holding 4 0 [] [Starting no_hook, Starting no_hook],
      outside = [], dtor = Alive, aborted = None, history = []\<rparr>"

definition busy_schedule :: "action list" where
  "busy_schedule =
     [Worker 0, Worker 1, Worker 0,
      Producer_log (memory_of ''app hello'') (Some 7) hello block,
      Destructor, Destructor,
      Producer_flush (Some 7) discard_on_full,
      Destructor]"

definition busy_system :: "string list system" where
  "busy_system =
     \<lparr>pool = pool_holding 4 0
               [hello_envelope, terminate_envelope, flush_envelope, terminate_envelope]
               [Running, Running],
      outside = [], dtor = Posting 2, aborted = None,
      history = [Posted terminate_envelope block, Posted terminate_envelope block]\<rparr>"

definition rest_schedule :: "action list" where
  "rest_schedule =
     [Worker 1, Worker 0, Worker 1, Destructor, Destructor, Worker 1, Destructor, Destructor]"

definition torn_down :: "string list system" where
  "torn_down =
     \<lparr>pool = pool_holding 4 0 [] [Joined, Joined],
      outside = [''hello'', ''<flush>''], dtor = Destroyed, aborted = None,
      history =
        [Posted terminate_envelope block, Posted terminate_envelope block,
         Dequeued 1 hello_envelope,
         Dequeued 0 terminate_envelope, Returned 0,
         Dequeued 1 flush_envelope,
         Joined_thread 0,
         Dequeued 1 terminate_envelope, Returned 1,
         Joined_thread 1]\<rparr>"

text \<open>
  What the completion of a teardown needs. A front end is \<open>calm\<close> when its two
  operations never throw. A state is \<open>ready\<close> when no thread function has been left
  by an exception, the queue has room for at least one envelope, no start hook still
  to be run throws, every queued log or flush envelope has a target, and the front
  end is calm.
\<close>

definition calm :: "'w front_end \<Rightarrow> bool" where
  "calm fe \<longleftrightarrow>
     (\<forall>a m w. fst (backend_sink_it fe a m w) = None)
     \<and> (\<forall>a w. fst (backend_flush fe a w) = None)"

definition ready :: "'w front_end \<Rightarrow> 'w system \<Rightarrow> bool" where
  "ready fe s \<longleftrightarrow>
     aborted s = None
     \<and> 0 < max_items (m_q (pool s))
     \<and> (\<forall>h w. Starting h \<in> set (m_threads (pool s)) \<longrightarrow> fst (h w) = None)
     \<and> (\<forall>m \<in> set (items (m_q (pool s))). msg_type m \<noteq> terminate \<longrightarrow> worker_ptr m \<noteq> None)
     \<and> calm fe"

subsection \<open>Accounting for envelopes\<close>



text \<open>The envelopes that the workers have dequeued, in order.\<close>

fun dequeued_by_event :: "event \<Rightarrow> async_msg list" where
  "dequeued_by_event (Dequeued i m) = [m]"
| "dequeued_by_event (Posted m overflow_policy) = []"
| "dequeued_by_event (Joined_thread j) = []"
| "dequeued_by_event (Returned i) = []"

definition dequeued_envelopes :: "event list \<Rightarrow> async_msg list" where
  "dequeued_envelopes h = concat (map dequeued_by_event h)"

text \<open>The submissions made while the queue had room, and those made while it was full.\<close>

definition kept :: "(async_msg \<times> async_overflow_policy \<times> bool) list \<Rightarrow> async_msg list" where
  "kept subs = map fst (filter (\<lambda>x. \<not> snd (snd x)) subs)"

definition refused ::
  "(async_msg \<times> async_overflow_policy \<times> bool) list
   \<Rightarrow> (async_msg \<times> async_overflow_policy \<times> bool) list" where
  "refused subs = filter (\<lambda>x. snd (snd x)) subs"



text \<open>
  A log envelope with the empty target, as \<^verbatim>\<open>post_log\<close> builds it from an empty
  pointer; a start hook that throws.
\<close>

definition orphan_envelope :: async_msg where
  "orphan_envelope =
     \<lparr>buf_logger_name = ''app'', buf_level = 2, buf_time = 17, buf_payload = ''hello'',
      msg_type = log, worker_ptr = None\<rparr>"

definition throwing_hook :: "string list effect" where
  "throwing_hook = (\<lambda>w. (Some (Callee_exception ''hook failed''), w))"

text \<open>
  Teardowns that do not finish. A pool of one worker and capacity 0, right after its
  construction (\<open>cramped_fresh\<close>) and after the worker has started and the
  destructor has been entered (\<open>cramped_system\<close>). A pool of one worker and
  capacity 4 right after its construction (\<open>single_fresh\<close>); the run in which the
  worker starts, a record is logged, the destructor is entered, posts its terminate
  envelope and reaches its join, and the worker takes the log envelope
  (\<open>wreck_schedule\<close>), which with the throwing front end ends in
  \<open>wrecked_system\<close>; the same run with an empty target (\<open>orphan_schedule\<close>),
  which ends in \<open>orphaned_system\<close>; and the same pool with the throwing hook
  (\<open>hooked_fresh\<close>), whose worker's first step ends in \<open>hooked_system\<close>.
\<close>

definition cramped_fresh :: "string list system" where
  "cramped_fresh =
     \<lparr>pool = pool_holding 0 0 [] [Starting no_hook],
      outside = [], dtor = Alive, aborted = None, history = []\<rparr>"

definition cramped_system :: "string list system" where
  "cramped_system =
     \<lparr>pool = pool_holding 0 0 [] [Running],
      outside = [], dtor = Posting 0, aborted = None, history = []\<rparr>"

definition single_fresh :: "string list system" where
  "single_fresh =
     \<lparr>pool = pool_holding 4 0 [] [Starting no_hook],
      outside = [], dtor = Alive, aborted = None, history = []\<rparr>"

definition wreck_schedule :: "action list" where
  "wreck_schedule =
     [Worker 0, Producer_log (memory_of ''app hello'') (Some 7) hello block,
      Destructor, Destructor, Destructor, Worker 0]"

definition wrecked_system :: "string list system" where
  "wrecked_system =
     \<lparr>pool = pool_holding 4 0 [terminate_envelope] [Running],
      outside = [], dtor = Joining 0, aborted = Some (Callee_exception ''write failed''),
      history = [Posted terminate_envelope block, Dequeued 0 hello_envelope]\<rparr>"

definition orphan_schedule :: "action list" where
  "orphan_schedule =
     [Worker 0, Producer_log (memory_of ''app hello'') None hello block,
      Destructor, Destructor, Destructor, Worker 0]"

definition orphaned_system :: "string list system" where
  "orphaned_system =
     \<lparr>pool = pool_holding 4 0 [terminate_envelope] [Running],
      outside = [], dtor = Joining 0, aborted = Some Null_dereference,
      history = [Posted terminate_envelope block, Dequeued 0 orphan_envelope]\<rparr>"

definition hooked_fresh :: "string list system" where
  "hooked_fresh =
     \<lparr>pool = pool_holding 4 0 [] [Starting throwing_hook],
      outside = [], dtor = Alive, aborted = None, history = []\<rparr>"

definition hooked_system :: "string list system" where
  "hooked_system =
     \<lparr>pool = pool_holding 4 0 [] [Starting throwing_hook],
      outside = [], dtor = Alive, aborted = Some (Callee_exception ''hook failed''),
      history = []\<rparr>"

section \<open>Properties\<close>

subsection \<open>Construction\<close>

lemma unat_succ_below:
  fixes i n :: size_t
  assumes "i < n"
  shows "unat (i + 1) = unat i + 1"
proof -
  have "unat i < unat n"
    using assms by (simp add: word_less_nat_alt)
  moreover have "unat n < 2 ^ 64"
    using unsigned_less [of n] by simp
  ultimately have "unat i + 1 < 2 ^ 64"
    by simp
  then show ?thesis
    by (simp add: unat_word_ariths)
qed

lemma spawn_workers_eq:
  "unat i \<le> unat n \<Longrightarrow>
   spawn_workers i n h ts = ts @ replicate (unat n - unat i) (Starting h)"
proof (induction i n h ts rule: spawn_workers.induct)
  case (1 i threads_n on_thread_start ts)
  show ?case
  proof (cases "i < threads_n")
    case True
    then have s: "unat (i + 1) = unat i + 1"
      by (rule unat_succ_below)
    from True have lt: "unat i < unat threads_n"
      by (simp add: word_less_nat_alt)
    then have le: "unat (i + 1) \<le> unat threads_n"
      using s by simp
    have "spawn_workers i threads_n on_thread_start ts =
          spawn_workers (i + 1) threads_n on_thread_start (ts @ [Starting on_thread_start])"
      using True by (subst spawn_workers.simps) simp
    also have "\<dots> = (ts @ [Starting on_thread_start]) @
                     replicate (unat threads_n - unat (i + 1)) (Starting on_thread_start)"
      using "1.IH" [OF True le] .
    also have "\<dots> = ts @ replicate (Suc (unat threads_n - unat (i + 1))) (Starting on_thread_start)"
      by simp
    also have "Suc (unat threads_n - unat (i + 1)) = unat threads_n - unat i"
      using lt s by simp
    finally show ?thesis .
  next
    case False
    then have "unat threads_n \<le> unat i"
      by (simp add: word_less_nat_alt)
    with False show ?thesis
      by (subst spawn_workers.simps) simp
  qed
qed

text \<open>
  C1: constructing a pool with \<open>threads_n\<close> equal to 0 or greater than 1000 throws the
  configuration error with no worker thread started (\<open>threads_\<close> is still empty at
  the throw and the queue is the freshly built, empty one); for every \<open>threads_n\<close> in
  1..1000 construction succeeds and starts exactly \<open>threads_n\<close> worker threads, each
  holding the start hook it was given.
\<close>

theorem thread_pool_ctor_threads_n:
  "(if threads_n = 0 \<or> 1000 < threads_n
    then \<exists>text. thread_pool_ctor q_max_items threads_n on_thread_start =
           Inl (Spdlog_ex text,
                \<lparr>m_q = mpmc_blocking_queue_ctor (unat q_max_items), m_threads = []\<rparr>)
    else \<exists>p. thread_pool_ctor q_max_items threads_n on_thread_start = Inr p
           \<and> length (m_threads p) = unat threads_n
           \<and> m_threads p = replicate (unat threads_n) (Starting on_thread_start)
           \<and> m_q p = mpmc_blocking_queue_ctor (unat q_max_items))"
proof (cases "threads_n = 0 \<or> 1000 < threads_n")
  case True
  then show ?thesis
    by (simp add: thread_pool_ctor_def)
next
  case False
  have "spawn_workers 0 threads_n on_thread_start [] =
        [] @ replicate (unat threads_n - unat (0 :: size_t)) (Starting on_thread_start)"
    by (rule spawn_workers_eq) simp
  then have "spawn_workers 0 threads_n on_thread_start [] =
        replicate (unat threads_n) (Starting on_thread_start)"
    by simp
  with False show ?thesis
    by (simp add: thread_pool_ctor_def)
qed

theorem thread_pool_ctor_threads_n_witness:
  "(\<exists>p. thread_pool_ctor 8 3 no_hook = Inr p
        \<and> m_threads p = [Starting no_hook, Starting no_hook, Starting no_hook])
   \<and> (\<exists>text. thread_pool_ctor 8 0 no_hook =
          Inl (Spdlog_ex text, pool_holding 8 0 [] []))
   \<and> (\<exists>text. thread_pool_ctor 8 1001 no_hook =
          Inl (Spdlog_ex text, pool_holding 8 0 [] []))"
proof -
  have u: "unat (3 :: size_t) = 3" "unat (8 :: size_t) = 8"
    by simp_all
  have r: "replicate 3 x = [x, x, x]" for x :: "string list thread"
    by (simp add: numeral_3_eq_3)
  have c: "\<not> ((3 :: size_t) = 0 \<or> 1000 < (3 :: size_t))"
    "(0 :: size_t) = 0 \<or> 1000 < (0 :: size_t)"
    "(1001 :: size_t) = 0 \<or> 1000 < (1001 :: size_t)"
    by simp_all
  have "\<exists>p. thread_pool_ctor 8 3 no_hook = Inr p
           \<and> length (m_threads p) = unat (3 :: size_t)
           \<and> m_threads p = replicate (unat (3 :: size_t)) (Starting no_hook)
           \<and> m_q p = mpmc_blocking_queue_ctor (unat (8 :: size_t))"
    using thread_pool_ctor_threads_n [of 3 8 no_hook] c(1) by (simp only: if_False)
  then have ok: "\<exists>p. thread_pool_ctor 8 3 no_hook = Inr p
        \<and> m_threads p = [Starting no_hook, Starting no_hook, Starting no_hook]"
    unfolding u r by blast
  have "\<exists>text. thread_pool_ctor 8 0 no_hook =
          Inl (Spdlog_ex text,
               \<lparr>m_q = mpmc_blocking_queue_ctor (unat (8 :: size_t)), m_threads = []\<rparr>)"
    using thread_pool_ctor_threads_n [of 0 8 no_hook] c(2) by (simp only: if_True)
  then have zero: "\<exists>text. thread_pool_ctor 8 0 no_hook =
          Inl (Spdlog_ex text, pool_holding 8 0 [] [])"
    unfolding u pool_holding_def mpmc_blocking_queue_ctor_def .
  have "\<exists>text. thread_pool_ctor 8 1001 no_hook =
          Inl (Spdlog_ex text,
               \<lparr>m_q = mpmc_blocking_queue_ctor (unat (8 :: size_t)), m_threads = []\<rparr>)"
    using thread_pool_ctor_threads_n [of 1001 8 no_hook] c(3) by (simp only: if_True)
  then have big: "\<exists>text. thread_pool_ctor 8 1001 no_hook =
          Inl (Spdlog_ex text, pool_holding 8 0 [] [])"
    unfolding u pool_holding_def mpmc_blocking_queue_ctor_def .
  from ok zero big show ?thesis
    by blast
qed

subsection \<open>The concrete inputs, evaluated\<close>

lemma hello_envelope_built:
  "async_msg_from_log (memory_of ''app hello'') (Some 7) log hello = (hello_envelope, None)"
  by (simp add: async_msg_from_log_def move_ptr_def log_msg_buffer_copy_def hello_def
        hello_envelope_def view_bytes_def memory_of_def log_msg_buffer.extend_def
        async_msg.fields_def upt_rec)

lemma flush_envelope_built:
  "async_msg_of_type (Some 7) flush = (flush_envelope, None)"
  by (simp add: async_msg_of_type_def move_ptr_def flush_envelope_def log_msg_buffer_default_def
        log_msg_buffer.extend_def async_msg.fields_def)

lemma terminate_envelope_built:
  "async_msg_tag_only terminate = terminate_envelope"
  by (simp add: async_msg_tag_only_def async_msg_of_type_def move_ptr_def terminate_envelope_def
        log_msg_buffer_default_def log_msg_buffer.extend_def async_msg.fields_def)

lemma tags_distinct:
  "log \<noteq> terminate" "flush \<noteq> terminate" "log \<noteq> flush"
  "terminate \<noteq> log" "terminate \<noteq> flush" "flush \<noteq> log"
  by (simp_all add: log_def flush_def terminate_def)

lemmas envelope_defs = hello_envelope_def flush_envelope_def terminate_envelope_def

lemma boot_single:
  "boot q_max_items 1 on_thread_start w =
     Some \<lparr>pool = pool_holding (unat q_max_items) 0 [] [Starting on_thread_start],
           outside = w, dtor = Alive, aborted = None, history = []\<rparr>"
proof -
  have "spawn_workers 0 1 on_thread_start [] =
        [] @ replicate (unat (1 :: size_t) - unat (0 :: size_t)) (Starting on_thread_start)"
    by (rule spawn_workers_eq) simp
  then have "spawn_workers 0 1 on_thread_start [] = [Starting on_thread_start]"
    by simp
  then show ?thesis
    by (simp add: boot_def thread_pool_ctor_def pool_holding_def mpmc_blocking_queue_ctor_def)
qed

lemma orphan_envelope_built:
  "async_msg_from_log (memory_of ''app hello'') None log hello = (orphan_envelope, None)"
  by (simp add: async_msg_from_log_def move_ptr_def log_msg_buffer_copy_def hello_def
        orphan_envelope_def view_bytes_def memory_of_def log_msg_buffer.extend_def
        async_msg.fields_def upt_rec)

subsection \<open>Submission dispatches on the overflow policy\<close>

text \<open>
  C4: for every envelope and every overflow policy, \<^verbatim>\<open>post_async_msg_\<close> dispatches on
  exactly two policies. Under the block policy it performs the blocking enqueue: the
  caller is suspended exactly when the queue is full, and when the call returns the
  envelope is the new tail of the queue and nothing was counted as discarded, so the
  envelope is never dropped. Under the discard policy it performs the non-blocking
  enqueue: the call always returns (the producer is never suspended), and when the
  queue is full the envelope is discarded (the queue content is unchanged) and the
  overrun counter is incremented by one; when there is room the envelope is the new
  tail. (The two enqueue operations are the queue's, modelled from the spec.)
\<close>

theorem post_async_msg_two_policies:
  "post_async_msg new_msg overflow_policy this =
     (case overflow_policy of
        block \<Rightarrow> (case enqueue new_msg (m_q this) of
                    None \<Rightarrow> None
                  | Some q' \<Rightarrow> Some (this\<lparr>m_q := q'\<rparr>))
      | discard_on_full \<Rightarrow> Some (this\<lparr>m_q := enqueue_nowait new_msg (m_q this)\<rparr>))
   \<and> (post_async_msg new_msg block this = None \<longleftrightarrow> full (m_q this))
   \<and> (\<forall>this'. post_async_msg new_msg block this = Some this' \<longrightarrow>
          items (m_q this') = items (m_q this) @ [new_msg]
          \<and> overrun_counter this' = overrun_counter this
          \<and> m_threads this' = m_threads this)
   \<and> (\<exists>this'. post_async_msg new_msg discard_on_full this = Some this'
          \<and> m_threads this' = m_threads this
          \<and> (if full (m_q this)
              then items (m_q this') = items (m_q this)
                   \<and> overrun_counter this' = overrun_counter this + 1
              else items (m_q this') = items (m_q this) @ [new_msg]
                   \<and> overrun_counter this' = overrun_counter this))"
  by (cases overflow_policy)
     (auto simp: post_async_msg_def enqueue_def enqueue_nowait_def overrun_counter_def
        overrun_counter_q_def)

theorem post_async_msg_two_policies_witness:
  "post_async_msg hello_envelope block
     (pool_holding 1 0 [flush_envelope] [Running :: string list thread]) = None
   \<and> post_async_msg hello_envelope block
       (pool_holding 2 0 [flush_envelope] [Running :: string list thread]) =
     Some (pool_holding 2 0 [flush_envelope, hello_envelope] [Running])
   \<and> post_async_msg hello_envelope discard_on_full
       (pool_holding 1 0 [flush_envelope] [Running :: string list thread]) =
     Some (pool_holding 1 1 [flush_envelope] [Running])
   \<and> post_async_msg hello_envelope discard_on_full
       (pool_holding 2 0 [flush_envelope] [Running :: string list thread]) =
     Some (pool_holding 2 0 [flush_envelope, hello_envelope] [Running])"
proof -
  note dispatch = post_async_msg_two_policies [THEN conjunct1]
  show ?thesis
    by (simp add: dispatch pool_holding_def full_def enqueue_def enqueue_nowait_def)
qed

subsection \<open>One iteration of the drain loop\<close>

text \<open>
  C3 as the spec states it (on a log or flush envelope the worker calls the front end
  and remains Running, and there is no other behaviour) does not hold. With the front
  end whose operations throw, \<^verbatim>\<open>process_next_msg_\<close> on a flush envelope does not
  return: it is left by the exception. And \<^verbatim>\<open>post_log\<close> accepts an empty target:
  the envelope it enqueues makes \<^verbatim>\<open>process_next_msg_\<close> dereference the empty
  pointer, with the front end not called.
\<close>

theorem process_next_msg_counterexample:
  "process_next_msg False throwing_front_end
     (pool_holding 4 0 [flush_envelope, terminate_envelope] [Running], [''earlier'']) =
     (Inl (Callee_exception ''flush failed''),
      pool_holding 4 0 [terminate_envelope] [Running], [''earlier''])
   \<and> post_log (memory_of ''app hello'') None hello block
       (pool_holding 4 0 [] [Running :: string list thread]) =
     Some (None, pool_holding 4 0 [orphan_envelope] [Running])
   \<and> process_next_msg False recording_front_end
       (pool_holding 4 0 [orphan_envelope] [Running], []) =
     (Inl Null_dereference, pool_holding 4 0 [] [Running], [])"
  by (simp add: process_next_msg_def dequeue_for_def pool_holding_def envelope_defs
        orphan_envelope_def throwing_front_end_def recording_front_end_def tags_distinct
        post_log_def orphan_envelope_built post_async_msg_def enqueue_def full_def)

text \<open>
  C3, amended: each iteration of the drain loop processes at most one envelope, and for
  an envelope of one of the three kinds it behaves as follows.
  \<^item> Timeout (nothing to dequeue): \<^verbatim>\<open>process_next_msg_\<close> returns true with the pool
    and the outside state unchanged.
  \<^item> Log envelope with a target: the target's \<^verbatim>\<open>backend_sink_it_\<close> is called with
    the envelope's record. When the call returns, \<^verbatim>\<open>process_next_msg_\<close> returns true
    and the loop goes on with the rest of the queue; when the call throws, the
    exception leaves \<^verbatim>\<open>process_next_msg_\<close> and the loop.
  \<^item> Flush envelope with a target: the same with the target's \<^verbatim>\<open>backend_flush_\<close>.
  \<^item> Log or flush envelope with the empty target: the empty pointer is dereferenced,
    and the front end is not called.
  \<^item> Terminate envelope: \<^verbatim>\<open>process_next_msg_\<close> returns false and \<^verbatim>\<open>worker_loop_\<close>
    returns, the outside state unchanged.
  \<^item> The queue is shorter by one envelope at most.
  \<^item> These are the only behaviours: whenever the envelope at the head of the queue is
    of one of the three kinds, the call has removed exactly that envelope (or none, on
    a timeout); it returns false exactly for a terminate envelope; and it fails only
    for a log or flush envelope, with the dereference of an empty target or with
    the exception that the front-end call has thrown.
\<close>

theorem process_next_msg_state_machine:
  fixes this :: "'w thread_pool"
  shows
  "(items (m_q this) = [] \<longrightarrow>
      process_next_msg ndebug fe (this, w) = (Inr True, this, w))
   \<and> (\<forall>m rest a.
        items (m_q this) = m # rest \<and> msg_type m = log \<and> worker_ptr m = Some a \<longrightarrow>
        (case backend_sink_it fe a (log_msg_buffer.truncate m) w of
           (None, w') \<Rightarrow>
             process_next_msg ndebug fe (this, w) =
               (Inr True, this\<lparr>m_q := (m_q this)\<lparr>items := rest\<rparr>\<rparr>, w')
             \<and> worker_loop ndebug fe (this, w) =
               worker_loop ndebug fe (this\<lparr>m_q := (m_q this)\<lparr>items := rest\<rparr>\<rparr>, w')
         | (Some f, w') \<Rightarrow>
             process_next_msg ndebug fe (this, w) =
               (Inl f, this\<lparr>m_q := (m_q this)\<lparr>items := rest\<rparr>\<rparr>, w')
             \<and> worker_loop ndebug fe (this, w) =
               Some (Some f, this\<lparr>m_q := (m_q this)\<lparr>items := rest\<rparr>\<rparr>, w')))
   \<and> (\<forall>m rest a.
        items (m_q this) = m # rest \<and> msg_type m = flush \<and> worker_ptr m = Some a \<longrightarrow>
        (case backend_flush fe a w of
           (None, w') \<Rightarrow>
             process_next_msg ndebug fe (this, w) =
               (Inr True, this\<lparr>m_q := (m_q this)\<lparr>items := rest\<rparr>\<rparr>, w')
             \<and> worker_loop ndebug fe (this, w) =
               worker_loop ndebug fe (this\<lparr>m_q := (m_q this)\<lparr>items := rest\<rparr>\<rparr>, w')
         | (Some f, w') \<Rightarrow>
             process_next_msg ndebug fe (this, w) =
               (Inl f, this\<lparr>m_q := (m_q this)\<lparr>items := rest\<rparr>\<rparr>, w')
             \<and> worker_loop ndebug fe (this, w) =
               Some (Some f, this\<lparr>m_q := (m_q this)\<lparr>items := rest\<rparr>\<rparr>, w')))
   \<and> (\<forall>m rest.
        items (m_q this) = m # rest \<and> (msg_type m = log \<or> msg_type m = flush)
        \<and> worker_ptr m = None \<longrightarrow>
        process_next_msg ndebug fe (this, w) =
          (Inl Null_dereference, this\<lparr>m_q := (m_q this)\<lparr>items := rest\<rparr>\<rparr>, w))
   \<and> (\<forall>m rest.
        items (m_q this) = m # rest \<and> msg_type m = terminate \<longrightarrow>
        process_next_msg ndebug fe (this, w) =
          (Inr False, this\<lparr>m_q := (m_q this)\<lparr>items := rest\<rparr>\<rparr>, w)
        \<and> worker_loop ndebug fe (this, w) =
          Some (None, this\<lparr>m_q := (m_q this)\<lparr>items := rest\<rparr>\<rparr>, w))
   \<and> length (items (m_q (fst (snd (process_next_msg ndebug fe (this, w))))))
        = length (items (m_q this)) - 1
   \<and> ((\<forall>m rest. items (m_q this) = m # rest \<longrightarrow>
          msg_type m = log \<or> msg_type m = flush \<or> msg_type m = terminate) \<longrightarrow>
        (\<exists>r w'. process_next_msg ndebug fe (this, w) =
            (r, this\<lparr>m_q := (m_q this)\<lparr>items := tl (items (m_q this))\<rparr>\<rparr>, w')
          \<and> (r = Inr False \<longleftrightarrow>
               (\<exists>m rest. items (m_q this) = m # rest \<and> msg_type m = terminate))
          \<and> (\<forall>f. r = Inl f \<longrightarrow>
               (\<exists>m rest. items (m_q this) = m # rest
                  \<and> (msg_type m = log \<or> msg_type m = flush)
                  \<and> (worker_ptr m = None \<and> f = Null_dereference
                     \<or> (\<exists>a. worker_ptr m = Some a
                          \<and> (msg_type m = log
                               \<and> fst (backend_sink_it fe a (log_msg_buffer.truncate m) w) = Some f
                             \<or> msg_type m = flush
                               \<and> fst (backend_flush fe a w) = Some f)))))))"
proof -
  have wl: "worker_loop ndebug fe (this, w) =
        (case process_next_msg ndebug fe (this, w) of
           (Inl f, s') \<Rightarrow> Some (Some f, s')
         | (Inr continue, s') \<Rightarrow>
             if continue then worker_loop ndebug fe s' else Some (None, s'))"
    by (rule worker_loop.simps)
  have timeout: "items (m_q this) = [] \<longrightarrow>
      process_next_msg ndebug fe (this, w) = (Inr True, this, w)"
    by (simp add: process_next_msg_def dequeue_for_def)
  have sink: "case backend_sink_it fe a (log_msg_buffer.truncate m) w of
           (None, w') \<Rightarrow>
             process_next_msg ndebug fe (this, w) =
               (Inr True, this\<lparr>m_q := (m_q this)\<lparr>items := rest\<rparr>\<rparr>, w')
             \<and> worker_loop ndebug fe (this, w) =
               worker_loop ndebug fe (this\<lparr>m_q := (m_q this)\<lparr>items := rest\<rparr>\<rparr>, w')
         | (Some f, w') \<Rightarrow>
             process_next_msg ndebug fe (this, w) =
               (Inl f, this\<lparr>m_q := (m_q this)\<lparr>items := rest\<rparr>\<rparr>, w')
             \<and> worker_loop ndebug fe (this, w) =
               Some (Some f, this\<lparr>m_q := (m_q this)\<lparr>items := rest\<rparr>\<rparr>, w')"
    if "items (m_q this) = m # rest \<and> msg_type m = log \<and> worker_ptr m = Some a" for m rest a
  proof -
    have "process_next_msg ndebug fe (this, w) =
        (case backend_sink_it fe a (log_msg_buffer.truncate m) w of
           (None, w') \<Rightarrow> (Inr True, this\<lparr>m_q := (m_q this)\<lparr>items := rest\<rparr>\<rparr>, w')
         | (Some f, w') \<Rightarrow> (Inl f, this\<lparr>m_q := (m_q this)\<lparr>items := rest\<rparr>\<rparr>, w'))"
      using that
      by (auto simp: process_next_msg_def dequeue_for_def Let_def
            split: option.splits prod.splits)
    then show ?thesis
      by (simp add: wl split: option.splits prod.splits)
  qed
  have flsh: "case backend_flush fe a w of
           (None, w') \<Rightarrow>
             process_next_msg ndebug fe (this, w) =
               (Inr True, this\<lparr>m_q := (m_q this)\<lparr>items := rest\<rparr>\<rparr>, w')
             \<and> worker_loop ndebug fe (this, w) =
               worker_loop ndebug fe (this\<lparr>m_q := (m_q this)\<lparr>items := rest\<rparr>\<rparr>, w')
         | (Some f, w') \<Rightarrow>
             process_next_msg ndebug fe (this, w) =
               (Inl f, this\<lparr>m_q := (m_q this)\<lparr>items := rest\<rparr>\<rparr>, w')
             \<and> worker_loop ndebug fe (this, w) =
               Some (Some f, this\<lparr>m_q := (m_q this)\<lparr>items := rest\<rparr>\<rparr>, w')"
    if "items (m_q this) = m # rest \<and> msg_type m = flush \<and> worker_ptr m = Some a" for m rest a
  proof -
    have "process_next_msg ndebug fe (this, w) =
        (case backend_flush fe a w of
           (None, w') \<Rightarrow> (Inr True, this\<lparr>m_q := (m_q this)\<lparr>items := rest\<rparr>\<rparr>, w')
         | (Some f, w') \<Rightarrow> (Inl f, this\<lparr>m_q := (m_q this)\<lparr>items := rest\<rparr>\<rparr>, w'))"
      using that
      by (auto simp: process_next_msg_def dequeue_for_def Let_def tags_distinct
            split: option.splits prod.splits)
    then show ?thesis
      by (simp add: wl split: option.splits prod.splits)
  qed
  have null: "process_next_msg ndebug fe (this, w) =
          (Inl Null_dereference, this\<lparr>m_q := (m_q this)\<lparr>items := rest\<rparr>\<rparr>, w)"
    if "items (m_q this) = m # rest \<and> (msg_type m = log \<or> msg_type m = flush)
        \<and> worker_ptr m = None" for m rest
    using that
    by (auto simp: process_next_msg_def dequeue_for_def Let_def tags_distinct)
  have trm: "process_next_msg ndebug fe (this, w) =
          (Inr False, this\<lparr>m_q := (m_q this)\<lparr>items := rest\<rparr>\<rparr>, w)
        \<and> worker_loop ndebug fe (this, w) =
          Some (None, this\<lparr>m_q := (m_q this)\<lparr>items := rest\<rparr>\<rparr>, w)"
    if "items (m_q this) = m # rest \<and> msg_type m = terminate" for m rest
  proof -
    have "process_next_msg ndebug fe (this, w) =
          (Inr False, this\<lparr>m_q := (m_q this)\<lparr>items := rest\<rparr>\<rparr>, w)"
      using that by (simp add: process_next_msg_def dequeue_for_def tags_distinct)
    then show ?thesis
      by (simp add: wl)
  qed
  have shorter: "length (items (m_q (fst (snd (process_next_msg ndebug fe (this, w))))))
        = length (items (m_q this)) - 1"
    by (auto simp: process_next_msg_def dequeue_for_def Let_def
          split: list.splits option.splits prod.splits)
  have only: "\<exists>r w'. process_next_msg ndebug fe (this, w) =
            (r, this\<lparr>m_q := (m_q this)\<lparr>items := tl (items (m_q this))\<rparr>\<rparr>, w')
          \<and> (r = Inr False \<longleftrightarrow>
               (\<exists>m rest. items (m_q this) = m # rest \<and> msg_type m = terminate))
          \<and> (\<forall>f. r = Inl f \<longrightarrow>
               (\<exists>m rest. items (m_q this) = m # rest
                  \<and> (msg_type m = log \<or> msg_type m = flush)
                  \<and> (worker_ptr m = None \<and> f = Null_dereference
                     \<or> (\<exists>a. worker_ptr m = Some a
                          \<and> (msg_type m = log
                               \<and> fst (backend_sink_it fe a (log_msg_buffer.truncate m) w) = Some f
                             \<or> msg_type m = flush
                               \<and> fst (backend_flush fe a w) = Some f)))))"
    if tags: "\<forall>m rest. items (m_q this) = m # rest \<longrightarrow>
          msg_type m = log \<or> msg_type m = flush \<or> msg_type m = terminate"
  proof (cases "items (m_q this)")
    case Nil
    then show ?thesis
      by (simp add: process_next_msg_def dequeue_for_def)
  next
    case (Cons m rest)
    with tags have "msg_type m = log \<or> msg_type m = flush \<or> msg_type m = terminate"
      by simp
    with Cons show ?thesis
      by (auto simp: process_next_msg_def dequeue_for_def Let_def tags_distinct
            split: option.splits prod.splits)
  qed
  show ?thesis
    apply (intro conjI allI impI)
    subgoal using timeout by simp
    subgoal by (rule sink)
    subgoal by (rule flsh)
    subgoal by (rule null)
    subgoal using trm by blast
    subgoal using trm by blast
    subgoal by (rule shorter)
    subgoal by (rule only)
    done
qed

theorem process_next_msg_state_machine_witness:
  "process_next_msg False recording_front_end
     (pool_holding 4 0 [] [Running], []) =
     (Inr True, pool_holding 4 0 [] [Running], [])
   \<and> process_next_msg False recording_front_end
       (pool_holding 4 0 [hello_envelope, flush_envelope] [Running], []) =
     (Inr True, pool_holding 4 0 [flush_envelope] [Running], [''hello''])
   \<and> process_next_msg False recording_front_end
       (pool_holding 4 0 [flush_envelope, terminate_envelope] [Running], [''hello'']) =
     (Inr True, pool_holding 4 0 [terminate_envelope] [Running], [''hello'', ''<flush>''])
   \<and> process_next_msg False throwing_front_end
       (pool_holding 4 0 [hello_envelope, terminate_envelope] [Running], [''hello'']) =
     (Inl (Callee_exception ''write failed''),
      pool_holding 4 0 [terminate_envelope] [Running], [''hello''])
   \<and> process_next_msg False recording_front_end
       (pool_holding 4 0 [orphan_envelope, terminate_envelope] [Running], [''hello'']) =
     (Inl Null_dereference, pool_holding 4 0 [terminate_envelope] [Running], [''hello''])
   \<and> process_next_msg False recording_front_end
       (pool_holding 4 0 [terminate_envelope, hello_envelope] [Running], []) =
     (Inr False, pool_holding 4 0 [hello_envelope] [Running], [])
   \<and> worker_loop False recording_front_end
       (pool_holding 4 0 [terminate_envelope, hello_envelope] [Running], []) =
     Some (None, pool_holding 4 0 [hello_envelope] [Running], [])"
proof -
  let ?P = "\<lambda>ms. pool_holding 4 0 ms [Running] :: string list thread_pool"
  note t = process_next_msg_state_machine [where ndebug = False]
  have q: "items (m_q (?P ms)) = ms" for ms
    by (simp add: pool_holding_def)
  have upd: "(?P ms)\<lparr>m_q := (m_q (?P ms))\<lparr>items := rest\<rparr>\<rparr> = ?P rest" for ms rest
    by (simp add: pool_holding_def)
  have a: "process_next_msg False recording_front_end (?P [], []) = (Inr True, ?P [], [])"
    using t [where this = "?P []" and fe = recording_front_end and w = "[]", THEN conjunct1]
    by (simp add: q)
  have b: "process_next_msg False recording_front_end (?P [hello_envelope, flush_envelope], []) =
      (Inr True, ?P [flush_envelope], [''hello''])"
    using t [where this = "?P [hello_envelope, flush_envelope]" and fe = recording_front_end
          and w = "[]", THEN conjunct2, THEN conjunct1, rule_format,
          of hello_envelope "[flush_envelope]" 7]
    by (simp add: q upd envelope_defs recording_front_end_def log_msg_buffer.truncate_def)
  have c: "process_next_msg False recording_front_end
        (?P [flush_envelope, terminate_envelope], [''hello'']) =
      (Inr True, ?P [terminate_envelope], [''hello'', ''<flush>''])"
    using t [where this = "?P [flush_envelope, terminate_envelope]"
          and fe = recording_front_end and w = "[''hello'']",
          THEN conjunct2, THEN conjunct2, THEN conjunct1, rule_format,
          of flush_envelope "[terminate_envelope]" 7]
    by (simp add: q upd envelope_defs recording_front_end_def)
  have d: "process_next_msg False throwing_front_end
        (?P [hello_envelope, terminate_envelope], [''hello'']) =
      (Inl (Callee_exception ''write failed''), ?P [terminate_envelope], [''hello''])"
    using t [where this = "?P [hello_envelope, terminate_envelope]"
          and fe = throwing_front_end and w = "[''hello'']",
          THEN conjunct2, THEN conjunct1, rule_format,
          of hello_envelope "[terminate_envelope]" 7]
    by (simp add: q upd envelope_defs throwing_front_end_def)
  have e: "process_next_msg False recording_front_end
        (?P [orphan_envelope, terminate_envelope], [''hello'']) =
      (Inl Null_dereference, ?P [terminate_envelope], [''hello''])"
    using t [where this = "?P [orphan_envelope, terminate_envelope]"
          and fe = recording_front_end and w = "[''hello'']",
          THEN conjunct2, THEN conjunct2, THEN conjunct2, THEN conjunct1, rule_format,
          of orphan_envelope "[terminate_envelope]"]
    by (simp add: q upd orphan_envelope_def)
  have f: "process_next_msg False recording_front_end
        (?P [terminate_envelope, hello_envelope], []) = (Inr False, ?P [hello_envelope], [])
      \<and> worker_loop False recording_front_end (?P [terminate_envelope, hello_envelope], []) =
        Some (None, ?P [hello_envelope], [])"
    using t [where this = "?P [terminate_envelope, hello_envelope]"
          and fe = recording_front_end and w = "[]",
          THEN conjunct2, THEN conjunct2, THEN conjunct2, THEN conjunct2, THEN conjunct1,
          rule_format, of terminate_envelope "[hello_envelope]"]
    by (simp add: q upd terminate_envelope_def)
  from a b c d e f show ?thesis
    by blast
qed

subsection \<open>A failure of the front end\<close>

text \<open>
  C6 as the spec states it (a failure raised by the dispatch or flush operation does
  not end the worker's drain loop) does not hold: with a front end whose dispatch
  throws, the loop run on a queue holding a log envelope and then a flush envelope is
  left by the exception after the first envelope, and the flush envelope is still in
  the queue.
\<close>

theorem worker_loop_failure_counterexample:
  "worker_loop False throwing_front_end
     (pool_holding 4 0 [hello_envelope, flush_envelope] [Running], []) =
   Some (Some (Callee_exception ''write failed''),
         pool_holding 4 0 [flush_envelope] [Running], [])"
  by (subst worker_loop.simps)
     (simp add: process_next_msg_def dequeue_for_def pool_holding_def envelope_defs
        throwing_front_end_def log_msg_buffer.truncate_def tags_distinct)

text \<open>
  C6, amended: \<^verbatim>\<open>process_next_msg_\<close> and \<^verbatim>\<open>worker_loop_\<close> have no handler around the
  call of the target's dispatch or flush operation. For a log or flush envelope with a
  non-empty target: when the operation returns, \<^verbatim>\<open>process_next_msg_\<close> returns true and
  the loop goes on with the next envelope; when the operation throws, the exception
  leaves \<^verbatim>\<open>process_next_msg_\<close> and \<^verbatim>\<open>worker_loop_\<close>, which ends the drain loop with
  the rest of the queue untouched.
\<close>

theorem worker_loop_failure_propagates:
  fixes this :: "'w thread_pool"
  assumes "items (m_q this) = m # rest"
    and "worker_ptr m = Some a"
    and "(msg_type m = log \<and> call = backend_sink_it fe a (log_msg_buffer.truncate m))
         \<or> (msg_type m = flush \<and> call = backend_flush fe a)"
  shows "case call w of
           (None, w') \<Rightarrow>
             process_next_msg ndebug fe (this, w) =
               (Inr True, this\<lparr>m_q := (m_q this)\<lparr>items := rest\<rparr>\<rparr>, w')
             \<and> worker_loop ndebug fe (this, w) =
               worker_loop ndebug fe (this\<lparr>m_q := (m_q this)\<lparr>items := rest\<rparr>\<rparr>, w')
         | (Some f, w') \<Rightarrow>
             process_next_msg ndebug fe (this, w) =
               (Inl f, this\<lparr>m_q := (m_q this)\<lparr>items := rest\<rparr>\<rparr>, w')
             \<and> worker_loop ndebug fe (this, w) =
               Some (Some f, this\<lparr>m_q := (m_q this)\<lparr>items := rest\<rparr>\<rparr>, w')"
proof -
  have p: "process_next_msg ndebug fe (this, w) =
        (case call w of
           (None, w') \<Rightarrow> (Inr True, this\<lparr>m_q := (m_q this)\<lparr>items := rest\<rparr>\<rparr>, w')
         | (Some f, w') \<Rightarrow> (Inl f, this\<lparr>m_q := (m_q this)\<lparr>items := rest\<rparr>\<rparr>, w'))"
    using assms
    by (auto simp: process_next_msg_def dequeue_for_def Let_def tags_distinct
          split: option.splits prod.splits)
  have wl: "worker_loop ndebug fe (this, w) =
        (case process_next_msg ndebug fe (this, w) of
           (Inl f, s') \<Rightarrow> Some (Some f, s')
         | (Inr continue, s') \<Rightarrow>
             if continue then worker_loop ndebug fe s' else Some (None, s'))"
    by (rule worker_loop.simps)
  show ?thesis
    by (simp add: wl p split: option.splits prod.splits)
qed

theorem worker_loop_failure_propagates_witness:
  "process_next_msg False throwing_front_end
     (pool_holding 4 0 [flush_envelope, hello_envelope] [Running], [''earlier'']) =
     (Inl (Callee_exception ''flush failed''),
      pool_holding 4 0 [hello_envelope] [Running], [''earlier''])
   \<and> worker_loop False throwing_front_end
       (pool_holding 4 0 [flush_envelope, hello_envelope] [Running], [''earlier'']) =
     Some (Some (Callee_exception ''flush failed''),
           pool_holding 4 0 [hello_envelope] [Running], [''earlier''])
   \<and> process_next_msg False recording_front_end
       (pool_holding 4 0 [flush_envelope, hello_envelope] [Running], [''earlier'']) =
     (Inr True, pool_holding 4 0 [hello_envelope] [Running], [''earlier'', ''<flush>''])"
  using worker_loop_failure_propagates
          [where this = "pool_holding 4 0 [flush_envelope, hello_envelope] [Running]"
             and m = flush_envelope and rest = "[hello_envelope]" and a = 7
             and call = "backend_flush throwing_front_end 7" and fe = throwing_front_end
             and w = "[''earlier'']" and ndebug = False]
        worker_loop_failure_propagates
          [where this = "pool_holding 4 0 [flush_envelope, hello_envelope] [Running]"
             and m = flush_envelope and rest = "[hello_envelope]" and a = 7
             and call = "backend_flush recording_front_end 7" and fe = recording_front_end
             and w = "[''earlier'']" and ndebug = False]
  by (simp add: pool_holding_def envelope_defs throwing_front_end_def recording_front_end_def
        tags_distinct)

subsection \<open>What \<^verbatim>\<open>post_log\<close> enqueues\<close>

text \<open>
  C8: for every target pointer and log record, \<^verbatim>\<open>post_log\<close> builds a log envelope and
  hands it to \<^verbatim>\<open>post_async_msg_\<close> with the given policy. The envelope holds the
  record's level and time and, as bytes of its own, the texts that the record's views
  showed in the producer's memory at the call: it holds no view, so nothing in it
  refers to the producer's memory. The envelope's \<^verbatim>\<open>worker_ptr\<close> is the target that
  was passed, and the caller's pointer is empty when the call returns. When the call
  returns, the envelope is the new tail of the queue, unless the queue was full and
  the policy the discarding one, in which case the overrun counter was incremented.
  (The copy made by \<^verbatim>\<open>log_msg_buffer\<close> and the queue are modelled from the spec.)
\<close>

theorem post_log_envelope:
  fixes this :: "'w thread_pool"
  shows "\<exists>async_m.
     post_log mem worker msg overflow_policy this =
       (case post_async_msg async_m overflow_policy this of
          None \<Rightarrow> None
        | Some this' \<Rightarrow> Some (None, this'))
     \<and> msg_type async_m = log
     \<and> worker_ptr async_m = worker
     \<and> buf_logger_name async_m = view_bytes mem (logger_name msg)
     \<and> buf_payload async_m = view_bytes mem (payload msg)
     \<and> buf_level async_m = level msg
     \<and> buf_time async_m = time msg
     \<and> (\<forall>worker' this'.
          post_log mem worker msg overflow_policy this = Some (worker', this') \<longrightarrow>
          worker' = None
          \<and> (if full (m_q this) then items (m_q this') = items (m_q this)
                 \<and> overflow_policy = discard_on_full
                 \<and> overrun_counter this' = overrun_counter this + 1
              else items (m_q this') = items (m_q this) @ [async_m]
                 \<and> overrun_counter this' = overrun_counter this))"
  apply (rule exI [of _ "fst (async_msg_from_log mem worker log msg)"])
  apply (cases overflow_policy)
   apply (auto simp: post_log_def async_msg_from_log_def move_ptr_def Let_def
      log_msg_buffer_copy_def log_msg_buffer.extend_def async_msg.fields_def
      post_async_msg_def enqueue_def enqueue_nowait_def overrun_counter_def
      overrun_counter_q_def
      split: option.splits if_splits)
  done

theorem post_log_envelope_witness:
  "post_log (memory_of ''app hello'') (Some 7) hello block
     (pool_holding 2 0 [flush_envelope] [Running :: string list thread]) =
   Some (None, pool_holding 2 0 [flush_envelope, hello_envelope] [Running])
   \<and> post_log (memory_of ''app hello'') (Some 7) hello discard_on_full
       (pool_holding 1 0 [flush_envelope] [Running :: string list thread]) =
     Some (None, pool_holding 1 1 [flush_envelope] [Running])"
  using post_log_envelope
          [of "memory_of ''app hello''" "Some 7" hello block
              "pool_holding 2 0 [flush_envelope] [Running :: string list thread]"]
        post_log_envelope
          [of "memory_of ''app hello''" "Some 7" hello discard_on_full
              "pool_holding 1 0 [flush_envelope] [Running :: string list thread]"]
  by (simp add: post_log_def hello_envelope_built post_async_msg_def enqueue_def
        enqueue_nowait_def full_def pool_holding_def)

subsection \<open>Steps of a running pool keep its invariant\<close>

lemma envelope_fields [simp]:
  "msg_type (fst (async_msg_from_log mem worker ty msg)) = ty"
  "msg_type (fst (async_msg_of_type worker ty)) = ty"
  "msg_type (async_msg_tag_only ty) = ty"
  "worker_ptr (fst (async_msg_from_log mem worker ty msg)) = worker"
  "worker_ptr (fst (async_msg_of_type worker ty)) = worker"
  "worker_ptr (async_msg_tag_only ty) = None"
  by (simp_all add: async_msg_from_log_def async_msg_of_type_def async_msg_tag_only_def
        move_ptr_def log_msg_buffer.extend_def async_msg.fields_def)

lemma post_async_msg_effect:
  assumes "post_async_msg m overflow_policy this = Some this'"
  shows "m_threads this' = m_threads this"
    and "overflow_policy = block \<Longrightarrow> items (m_q this') = items (m_q this) @ [m]"
    and "items (m_q this') = items (m_q this) @ [m] \<or> items (m_q this') = items (m_q this)"
  using assms
  by (auto simp: post_async_msg_def enqueue_def enqueue_nowait_def split: if_splits)

lemma post_log_effect:
  assumes "post_log mem worker msg overflow_policy this = Some (worker', this')"
  shows "m_threads this' = m_threads this"
    and "items (m_q this') = items (m_q this) @ [fst (async_msg_from_log mem worker log msg)]
         \<or> items (m_q this') = items (m_q this)"
  using assms
  by (auto simp: post_log_def Let_def split: prod.splits option.splits
        dest: post_async_msg_effect)

lemma post_flush_effect:
  assumes "post_flush worker overflow_policy this = Some (worker', this')"
  shows "m_threads this' = m_threads this"
    and "items (m_q this') = items (m_q this) @ [fst (async_msg_of_type worker flush)]
         \<or> items (m_q this') = items (m_q this)"
  using assms
  by (auto simp: post_flush_def Let_def split: prod.splits option.splits
        dest: post_async_msg_effect)

lemma process_next_msg_effect:
  assumes "process_next_msg ndebug fe (this, w) = (r, this', w')"
  shows "this' = this\<lparr>m_q := (m_q this)\<lparr>items := tl (items (m_q this))\<rparr>\<rparr>"
    and "r = Inr False \<longleftrightarrow> (\<exists>m rest. items (m_q this) = m # rest \<and> msg_type m = terminate)"
  using assms
  by (auto simp: process_next_msg_def dequeue_for_def Let_def tags_distinct
        split: list.splits option.splits prod.splits if_splits)

lemma worker_step_effect:
  assumes "worker_step ndebug fe i s = Some s'"
  shows "dtor s' = dtor s \<and> i < length (m_threads (pool s)) \<and>
     ((\<exists>h. m_threads (pool s) ! i = Starting h) \<and> m_q (pool s') = m_q (pool s)
        \<and> history s' = history s
        \<and> (m_threads (pool s') = m_threads (pool s)
           \<or> m_threads (pool s') = (m_threads (pool s))[i := Running])
      \<or> m_threads (pool s) ! i = Running \<and> items (m_q (pool s)) = []
        \<and> pool s' = pool s \<and> history s' = history s
      \<or> m_threads (pool s) ! i = Running
        \<and> (\<exists>m rest. items (m_q (pool s)) = m # rest \<and> msg_type m \<noteq> terminate
             \<and> pool s' = (pool s)\<lparr>m_q := (m_q (pool s))\<lparr>items := rest\<rparr>\<rparr>
             \<and> history s' = history s @ [Dequeued i m])
      \<or> m_threads (pool s) ! i = Running
        \<and> (\<exists>m rest. items (m_q (pool s)) = m # rest \<and> msg_type m = terminate
             \<and> pool s' = (pool s)\<lparr>m_q := (m_q (pool s))\<lparr>items := rest\<rparr>,
                                  m_threads := (m_threads (pool s))[i := Exited]\<rparr>
             \<and> history s' = history s @ [Dequeued i m, Returned i]))"
proof -
  from assms have i: "i < length (m_threads (pool s))"
    by (auto simp: worker_step_def split: if_splits)
  show ?thesis
  proof (cases "m_threads (pool s) ! i")
    case (Starting h)
    with assms i show ?thesis
      by (auto simp: worker_step_def split: prod.splits option.splits)
  next
    case Running
    obtain r this' w' where p: "process_next_msg ndebug fe (pool s, outside s) = (r, this', w')"
      by (cases "process_next_msg ndebug fe (pool s, outside s)") auto
    note eff = process_next_msg_effect [OF p]
    show ?thesis
    proof (cases "items (m_q (pool s))")
      case Nil
      with assms i Running p eff show ?thesis
        by (auto simp: worker_step_def dequeue_events_def split: sum.splits if_splits)
    next
      case (Cons m rest)
      with assms i Running p eff show ?thesis
        by (cases r) (auto simp: worker_step_def dequeue_events_def split: if_splits)
    qed
  next
    case Exited
    with assms i show ?thesis
      by (simp add: worker_step_def)
  next
    case Joined
    with assms i show ?thesis
      by (simp add: worker_step_def)
  qed
qed

lemma sum_list_gone_update:
  "i < length ts \<Longrightarrow>
   sum_list (map gone (ts[i := t])) + gone (ts ! i) = sum_list (map gone ts) + gone t"
proof (induction ts arbitrary: i)
  case Nil
  then show ?case by simp
next
  case (Cons x xs)
  then show ?case by (cases i) auto
qed

lemma history_counts [simp]:
  "terminates_received i (h @ h') = terminates_received i h + terminates_received i h'"
  "exits i (h @ h') = exits i h + exits i h'"
  "terminates_received i [] = 0"
  "exits i [] = 0"
  "terminates_received i (Dequeued j m # h) =
     (if j = i \<and> msg_type m = terminate then 1 else 0) + terminates_received i h"
  "terminates_received i (Returned j # h) = terminates_received i h"
  "terminates_received i (Posted m overflow_policy # h) = terminates_received i h"
  "terminates_received i (Joined_thread j # h) = terminates_received i h"
  "exits i (Returned j # h) = (if j = i then 1 else 0) + exits i h"
  "exits i (Dequeued j m # h) = exits i h"
  "exits i (Posted m overflow_policy # h) = exits i h"
  "exits i (Joined_thread j # h) = exits i h"
  by (auto simp: terminates_received_def exits_def)

lemma gone_simps [simp]:
  "gone (Starting h) = 0" "gone Running = 0" "gone Exited = 1" "gone Joined = 1"
  by (simp_all add: gone_def)

lemma queue_ok_simps:
  "queue_ok []"
  "queue_ok (m # ms) \<longleftrightarrow> queue_ok [m] \<and> queue_ok ms"
  "queue_ok (ms @ ms') \<longleftrightarrow> queue_ok ms \<and> queue_ok ms'"
  by (auto simp: queue_ok_def)

lemma worker_step_pool_inv:
  assumes st: "worker_step ndebug fe i s = Some s'" and inv: "pool_inv k s"
  shows "pool_inv k s'"
proof -
  note eff = worker_step_effect [OF st]
  from eff have d: "dtor s' = dtor s" and i: "i < length (m_threads (pool s))"
    by simp_all
  from inv have len: "length (m_threads (pool s)) = k"
    by (simp add: pool_inv_def)
  from eff consider
    (start) h where "m_threads (pool s) ! i = Starting h" "m_q (pool s') = m_q (pool s)"
      "history s' = history s"
      "m_threads (pool s') = m_threads (pool s)
       \<or> m_threads (pool s') = (m_threads (pool s))[i := Running]"
  | (timeout) "pool s' = pool s" "history s' = history s"
  | (work) m rest where "m_threads (pool s) ! i = Running" "items (m_q (pool s)) = m # rest"
      "msg_type m \<noteq> terminate"
      "pool s' = (pool s)\<lparr>m_q := (m_q (pool s))\<lparr>items := rest\<rparr>\<rparr>"
      "history s' = history s @ [Dequeued i m]"
  | (leave) m rest where "m_threads (pool s) ! i = Running" "items (m_q (pool s)) = m # rest"
      "msg_type m = terminate"
      "pool s' = (pool s)\<lparr>m_q := (m_q (pool s))\<lparr>items := rest\<rparr>,
                          m_threads := (m_threads (pool s))[i := Exited]\<rparr>"
      "history s' = history s @ [Dequeued i m, Returned i]"
    by blast
  then show ?thesis
  proof cases
    case start
    from start(4) show ?thesis
    proof
      assume "m_threads (pool s') = m_threads (pool s)"
      with start inv d show ?thesis
        by (simp add: pool_inv_def terminates_queued_def)
    next
      assume upd: "m_threads (pool s') = (m_threads (pool s))[i := Running]"
      have sum: "sum_list (map gone ((m_threads (pool s))[i := Running])) =
                 sum_list (map gone (m_threads (pool s)))"
        using sum_list_gone_update [OF i, of Running] start(1) by simp
      have nth: "gone ((m_threads (pool s))[i := Running] ! j) = gone (m_threads (pool s) ! j)"
        and jn: "((m_threads (pool s))[i := Running] ! j = Joined) = (m_threads (pool s) ! j = Joined)"
        if "j < k" for j
        using that i len start(1) by (auto simp: nth_list_update)
      from inv show ?thesis
        unfolding pool_inv_def d upd start(2,3) terminates_queued_def
        by (simp add: sum nth jn)
    qed
  next
    case timeout
    with inv d show ?thesis
      by (simp add: pool_inv_def)
  next
    case work
    from inv have q: "queue_ok (m # rest)"
      by (simp add: pool_inv_def work(2))
    then have q1: "queue_ok [m]" and q2: "queue_ok rest"
      using queue_ok_simps(2) by blast+
    from inv show ?thesis
      unfolding pool_inv_def d work(4,5) terminates_queued_def
      using work(2,3) q1 q2 by auto
  next
    case leave
    from inv have q: "queue_ok (m # rest)"
      by (simp add: pool_inv_def leave(2))
    then have q1: "queue_ok [m]" and q2: "queue_ok rest"
      using queue_ok_simps(2) by blast+
    have sum: "sum_list (map gone ((m_threads (pool s))[i := Exited])) =
               Suc (sum_list (map gone (m_threads (pool s))))"
      using sum_list_gone_update [OF i, of Exited] leave(1) by simp
    have jn: "((m_threads (pool s))[i := Exited] ! j = Joined) = (m_threads (pool s) ! j = Joined)"
      if "j < k" for j
      using that i len leave(1) by (auto simp: nth_list_update)
    have nth: "gone ((m_threads (pool s))[i := Exited] ! j) =
               (if j = i then 1 else gone (m_threads (pool s) ! j))"
      if "j < k" for j
      using that i len by (auto simp: nth_list_update)
    have gi: "gone (m_threads (pool s) ! i) = 0"
      using leave(1) by simp
    from inv show ?thesis
      unfolding pool_inv_def d leave(4,5) terminates_queued_def
      using leave(2,3) q1 q2 gi by (auto simp: sum jn nth)
  qed
qed

lemma producer_step_pool_inv:
  assumes st: "producer_step call s = Some s'" and inv: "pool_inv k s"
    and call: "\<And>worker' this'. call = Some (worker', this') \<Longrightarrow>
        m_threads this' = m_threads (pool s)
        \<and> (\<exists>m. msg_type m \<noteq> terminate \<and> (msg_type m = log \<or> msg_type m = flush)
              \<and> (items (m_q this') = items (m_q (pool s)) @ [m]
                 \<or> items (m_q this') = items (m_q (pool s))))"
  shows "pool_inv k s'"
proof -
  from st obtain worker' this' where c: "call = Some (worker', this')"
    and s': "s' = s\<lparr>pool := this'\<rparr>"
    by (auto simp: producer_step_def split: if_splits option.splits)
  from call [OF c] obtain m where ts: "m_threads this' = m_threads (pool s)"
    and m: "msg_type m \<noteq> terminate" "msg_type m = log \<or> msg_type m = flush"
    and q: "items (m_q this') = items (m_q (pool s)) @ [m]
            \<or> items (m_q this') = items (m_q (pool s))"
    by blast
  from q show ?thesis
  proof
    assume "items (m_q this') = items (m_q (pool s)) @ [m]"
    with inv ts m show ?thesis
      unfolding pool_inv_def s' terminates_queued_def
      by (auto simp: queue_ok_def)
  next
    assume "items (m_q this') = items (m_q (pool s))"
    with inv ts show ?thesis
      unfolding pool_inv_def s' terminates_queued_def by simp
  qed
qed

lemma destructor_step_pool_inv:
  assumes st: "destructor_step s = Some s'" and inv: "pool_inv k s"
  shows "pool_inv k s'"
proof (cases "dtor s")
  case Alive
  with st have "s' = s\<lparr>dtor := Posting 0\<rparr>"
    by (simp add: destructor_step_def)
  with inv Alive show ?thesis
    by (simp add: pool_inv_def posts_made_def joins_made_def)
next
  case (Posting i)
  from inv have len: "length (m_threads (pool s)) = k"
    by (simp add: pool_inv_def)
  show ?thesis
  proof (cases "i < k")
    case True
    with st Posting len obtain this' where
      p: "post_async_msg (async_msg_tag_only terminate) block (pool s) = Some this'"
      and s': "s' = s\<lparr>pool := this', dtor := Posting (i + 1),
                 history := history s @ [Posted (async_msg_tag_only terminate) block]\<rparr>"
      by (auto simp: destructor_step_def split: option.splits)
    from post_async_msg_effect(1,2) [OF p]
    have ts: "m_threads this' = m_threads (pool s)"
      and q: "items (m_q this') = items (m_q (pool s)) @ [async_msg_tag_only terminate]"
      by simp_all
    from inv True show ?thesis
      unfolding pool_inv_def s' Posting terminates_queued_def
      by (auto simp: ts q posts_made_def joins_made_def queue_ok_def replicate_append_same)
  next
    case False
    with st Posting len have s': "s' = s\<lparr>dtor := Joining 0\<rparr>"
      by (simp add: destructor_step_def)
    from inv Posting False have "i = k"
      by (simp add: pool_inv_def posts_made_def)
    with inv Posting show ?thesis
      unfolding pool_inv_def s'
      by (simp add: posts_made_def joins_made_def)
  qed
next
  case (Joining j)
  from inv have len: "length (m_threads (pool s)) = k"
    by (simp add: pool_inv_def)
  from inv Joining have jn: "\<forall>i<k. (m_threads (pool s) ! i = Joined) = (i < j)"
    by (simp add: pool_inv_def joins_made_def)
  show ?thesis
  proof (cases "j < k")
    case True
    with jn have nj: "m_threads (pool s) ! j \<noteq> Joined"
      by simp
    with st Joining len True have ex: "m_threads (pool s) ! j = Exited"
      and s': "s' = s\<lparr>pool := (pool s)\<lparr>m_threads := (m_threads (pool s))[j := Joined]\<rparr>,
                 dtor := Joining (j + 1),
                 history := history s @ [Joined_thread j]\<rparr>"
      by (auto simp: destructor_step_def split: thread.splits)
    from True len have jl: "j < length (m_threads (pool s))"
      by simp
    have sum: "sum_list (map gone ((m_threads (pool s))[j := Joined])) =
               sum_list (map gone (m_threads (pool s)))"
      using sum_list_gone_update [OF jl, of Joined] ex by simp
    have nth: "gone ((m_threads (pool s))[j := Joined] ! i) = gone (m_threads (pool s) ! i)"
      if "i < k" for i
      using that jl len ex by (auto simp: nth_list_update)
    have jn': "((m_threads (pool s))[j := Joined] ! i = Joined) = (i < Suc j)"
      if "i < k" for i
      using that jl len jn by (auto simp: nth_list_update)
    from inv True show ?thesis
      unfolding pool_inv_def s' Joining terminates_queued_def
      by (simp add: posts_made_def joins_made_def sum nth jn')
  next
    case False
    with st Joining len have s': "s' = s\<lparr>dtor := Destroyed\<rparr>"
      by (simp add: destructor_step_def)
    from inv Joining False have "j = k"
      by (simp add: pool_inv_def joins_made_def)
    with inv Joining show ?thesis
      unfolding pool_inv_def s'
      by (simp add: posts_made_def joins_made_def)
  qed
next
  case Destroyed
  with st show ?thesis
    by (simp add: destructor_step_def)
qed

lemma step_pool_inv:
  assumes st: "step ndebug fe a s = Some s'" and inv: "pool_inv k s"
  shows "pool_inv k s'"
proof (cases a)
  case (Worker i)
  with st have "worker_step ndebug fe i s = Some s'"
    by (simp add: step_def split: if_splits)
  then show ?thesis
    using inv by (rule worker_step_pool_inv)
next
  case (Producer_log mem worker msg overflow_policy)
  with st have "producer_step (post_log mem worker msg overflow_policy (pool s)) s = Some s'"
    by (simp add: step_def split: if_splits)
  then show ?thesis
    using inv
  proof (rule producer_step_pool_inv)
    fix worker' this'
    assume "post_log mem worker msg overflow_policy (pool s) = Some (worker', this')"
    from post_log_effect [OF this]
    show "m_threads this' = m_threads (pool s)
        \<and> (\<exists>m. msg_type m \<noteq> terminate \<and> (msg_type m = log \<or> msg_type m = flush)
              \<and> (items (m_q this') = items (m_q (pool s)) @ [m]
                 \<or> items (m_q this') = items (m_q (pool s))))"
      by (intro conjI exI [of _ "fst (async_msg_from_log mem worker log msg)"])
         (simp_all add: tags_distinct)
  qed
next
  case (Producer_flush worker overflow_policy)
  with st have "producer_step (post_flush worker overflow_policy (pool s)) s = Some s'"
    by (simp add: step_def split: if_splits)
  then show ?thesis
    using inv
  proof (rule producer_step_pool_inv)
    fix worker' this'
    assume "post_flush worker overflow_policy (pool s) = Some (worker', this')"
    from post_flush_effect [OF this]
    show "m_threads this' = m_threads (pool s)
        \<and> (\<exists>m. msg_type m \<noteq> terminate \<and> (msg_type m = log \<or> msg_type m = flush)
              \<and> (items (m_q this') = items (m_q (pool s)) @ [m]
                 \<or> items (m_q this') = items (m_q (pool s))))"
      by (intro conjI exI [of _ "fst (async_msg_of_type worker flush)"])
         (simp_all add: tags_distinct)
  qed
next
  case Destructor
  with st have "destructor_step s = Some s'"
    by (simp add: step_def split: if_splits)
  then show ?thesis
    using inv by (rule destructor_step_pool_inv)
qed

lemma run_pool_inv:
  "run ndebug fe schedule s = Some s' \<Longrightarrow> pool_inv k s \<Longrightarrow> pool_inv k s'"
proof (induction schedule arbitrary: s)
  case Nil
  then show ?case by simp
next
  case (Cons a schedule)
  from Cons.prems(1) obtain s1 where a: "step ndebug fe a s = Some s1"
    and r: "run ndebug fe schedule s1 = Some s'"
    by (auto split: option.splits)
  from a Cons.prems(2) have "pool_inv k s1"
    by (rule step_pool_inv)
  with r show ?case
    by (rule Cons.IH)
qed

lemma boot_pool_inv:
  assumes "boot q_max_items threads_n on_thread_start w = Some s"
  shows "pool_inv (unat threads_n) s"
proof -
  from assms have v: "\<not> (threads_n = 0 \<or> 1000 < threads_n)"
    by (auto simp: boot_def thread_pool_ctor_def Let_def split: if_splits)
  with assms have s: "s = \<lparr>pool = \<lparr>m_q = mpmc_blocking_queue_ctor (unat q_max_items),
        m_threads = replicate (unat threads_n) (Starting on_thread_start)\<rparr>,
      outside = w, dtor = Alive, aborted = None, history = []\<rparr>"
    by (auto simp: boot_def thread_pool_ctor_def Let_def spawn_workers_eq)
  have "sum_list (map gone (replicate n (Starting on_thread_start))) = 0" for n
    by (induction n) simp_all
  then show ?thesis
    unfolding s pool_inv_def
    by (simp add: mpmc_blocking_queue_ctor_def queue_ok_def posts_made_def joins_made_def
          terminates_queued_def)
qed

subsection \<open>The concrete runs, evaluated\<close>

lemma boot_fresh_system: "boot 4 2 no_hook [] = Some fresh_system"
proof -
  have u: "unat (2 :: size_t) - unat (0 :: size_t) = 2"
    by simp
  have r: "replicate 2 x = [x, x]" for x :: "string list thread"
    by (simp add: numeral_2_eq_2)
  have "spawn_workers 0 2 no_hook [] =
        [] @ replicate (unat (2 :: size_t) - unat (0 :: size_t)) (Starting no_hook)"
    by (rule spawn_workers_eq) simp
  then have "spawn_workers 0 2 no_hook [] = [Starting no_hook, Starting no_hook]"
    unfolding u r by simp
  then show ?thesis
    by (simp add: boot_def thread_pool_ctor_def fresh_system_def pool_holding_def
          mpmc_blocking_queue_ctor_def)
qed

lemmas step_defs =
  step_def worker_step_def destructor_step_def producer_step_def dequeue_events_def
  process_next_msg_def dequeue_for_def post_log_def post_flush_def post_async_msg_def
  enqueue_def enqueue_nowait_def full_def

lemma run_append:
  "run ndebug fe (as @ bs) s =
     (case run ndebug fe as s of None \<Rightarrow> None | Some s' \<Rightarrow> run ndebug fe bs s')"
  by (induction as arbitrary: s) (auto split: option.splits)

lemma run_busy_schedule:
  "run False recording_front_end busy_schedule fresh_system = Some busy_system"
  by (simp add: busy_schedule_def fresh_system_def busy_system_def step_defs pool_holding_def
        no_hook_def hello_envelope_built flush_envelope_built terminate_envelope_built)

lemma run_rest_schedule:
  "run False recording_front_end rest_schedule busy_system = Some torn_down"
  by (simp add: rest_schedule_def busy_system_def torn_down_def step_defs pool_holding_def
        envelope_defs recording_front_end_def log_msg_buffer.truncate_def tags_distinct)

lemma run_whole_schedule:
  "run False recording_front_end (busy_schedule @ rest_schedule) fresh_system = Some torn_down"
  by (simp add: run_append run_busy_schedule run_rest_schedule)

subsection \<open>The tags of queued envelopes\<close>

lemma process_next_msg_ndebug:
  assumes "queue_ok (items (m_q this))"
  shows "process_next_msg True fe (this, w) = process_next_msg False fe (this, w)"
proof (cases "items (m_q this)")
  case Nil
  then show ?thesis
    by (simp add: process_next_msg_def dequeue_for_def)
next
  case (Cons m rest)
  with assms have "msg_type m = log \<or> msg_type m = flush \<or> msg_type m = terminate"
    by (simp add: queue_ok_def)
  with Cons show ?thesis
    by (auto simp: process_next_msg_def dequeue_for_def Let_def tags_distinct)
qed

text \<open>
  C7: in every state that a pool reaches from its construction, by any interleaving of
  worker steps, submissions and destructor steps, every envelope in the queue and
  every envelope that a worker has dequeued carries one of the enumerators
  \<^verbatim>\<open>log\<close>, \<open>flush\<close>, \<open>terminate\<close>. So the \<^verbatim>\<open>default\<close> branch of the \<^verbatim>\<open>switch\<close> in
  \<^verbatim>\<open>process_next_msg_\<close>, the only place where \<^verbatim>\<open>assert(false)\<close> and hence the
  setting of \<^verbatim>\<open>NDEBUG\<close> matter, is never taken: the call does the same with and
  without \<^verbatim>\<open>NDEBUG\<close>, whatever the front end.
\<close>

theorem default_branch_unreachable:
  assumes "boot q_max_items threads_n on_thread_start w0 = Some s0"
    and "run ndebug fe schedule s0 = Some s"
  shows "(\<forall>m \<in> set (items (m_q (pool s))).
            msg_type m = log \<or> msg_type m = flush \<or> msg_type m = terminate)
       \<and> (\<forall>i m. Dequeued i m \<in> set (history s) \<longrightarrow>
            msg_type m = log \<or> msg_type m = flush \<or> msg_type m = terminate)
       \<and> process_next_msg True fe' (pool s, w) = process_next_msg False fe' (pool s, w)"
proof -
  from assms have inv: "pool_inv (unat threads_n) s"
    by (blast intro: run_pool_inv boot_pool_inv)
  then have q: "queue_ok (items (m_q (pool s)))"
    and h: "\<forall>i m. Dequeued i m \<in> set (history s) \<longrightarrow> queue_ok [m]"
    by (simp_all add: pool_inv_def)
  from q have "\<forall>m \<in> set (items (m_q (pool s))).
      msg_type m = log \<or> msg_type m = flush \<or> msg_type m = terminate"
    by (simp add: queue_ok_def)
  moreover from h have "\<forall>i m. Dequeued i m \<in> set (history s) \<longrightarrow>
      msg_type m = log \<or> msg_type m = flush \<or> msg_type m = terminate"
    by (simp add: queue_ok_def)
  moreover from q have "process_next_msg True fe' (pool s, w) =
      process_next_msg False fe' (pool s, w)"
    by (rule process_next_msg_ndebug)
  ultimately show ?thesis
    by blast
qed

theorem default_branch_unreachable_witness:
  "boot 4 2 no_hook [] = Some fresh_system
   \<and> run False recording_front_end busy_schedule fresh_system = Some busy_system
   \<and> items (m_q (pool busy_system)) =
       [hello_envelope, terminate_envelope, flush_envelope, terminate_envelope]
   \<and> map msg_type (items (m_q (pool busy_system))) = [log, terminate, flush, terminate]
   \<and> process_next_msg True throwing_front_end (pool busy_system, []) =
     process_next_msg False throwing_front_end (pool busy_system, [])"
  using default_branch_unreachable [OF boot_fresh_system run_busy_schedule,
          of throwing_front_end "[]"]
  by (simp add: boot_fresh_system run_busy_schedule busy_system_def pool_holding_def
        envelope_defs)

subsection \<open>The terminate envelope\<close>

text \<open>
  C10: the envelope built by \<^verbatim>\<open>async_msg(async_msg_type::terminate)\<close> has the empty
  target; in every state that a pool reaches from its construction, the envelopes
  posted by the destructor are that envelope, and every terminate envelope in the
  queue or dequeued by a worker has the empty target. For a terminate envelope at the
  head of the queue of any pool, \<^verbatim>\<open>process_next_msg_\<close> returns false without using
  the target: whatever the target, the front end and the setting of \<^verbatim>\<open>NDEBUG\<close>, the
  call returns, never fails with a dereference of the empty pointer, and leaves the
  outside state as it was.
\<close>

theorem terminate_envelope_null_target:
  fixes this :: "'w thread_pool"
  assumes "boot q_max_items threads_n on_thread_start w0 = Some s0"
    and "run ndebug fe schedule s0 = Some s"
  shows "worker_ptr (async_msg_tag_only terminate) = None
       \<and> (\<forall>m overflow_policy. Posted m overflow_policy \<in> set (history s) \<longrightarrow>
            m = async_msg_tag_only terminate \<and> worker_ptr m = None)
       \<and> (\<forall>m \<in> set (items (m_q (pool s))). msg_type m = terminate \<longrightarrow> worker_ptr m = None)
       \<and> (\<forall>i m. Dequeued i m \<in> set (history s) \<longrightarrow> msg_type m = terminate \<longrightarrow>
            worker_ptr m = None)
       \<and> (\<forall>m rest. items (m_q this) = m # rest \<and> msg_type m = terminate \<longrightarrow>
            process_next_msg ndebug' fe' (this, w) =
              (Inr False, this\<lparr>m_q := (m_q this)\<lparr>items := rest\<rparr>\<rparr>, w))"
proof -
  from assms have inv: "pool_inv (unat threads_n) s"
    by (blast intro: run_pool_inv boot_pool_inv)
  then have q: "queue_ok (items (m_q (pool s)))"
    and h: "\<forall>i m. Dequeued i m \<in> set (history s) \<longrightarrow> queue_ok [m]"
    and d: "filter by_destructor (history s) =
       replicate (posts_made (unat threads_n) (dtor s)) (Posted (async_msg_tag_only terminate) block)
       @ map Joined_thread [0..<joins_made (unat threads_n) (dtor s)]"
    by (simp_all add: pool_inv_def)
  have posted: "m = async_msg_tag_only terminate \<and> worker_ptr m = None"
    if "Posted m overflow_policy \<in> set (history s)" for m overflow_policy
  proof -
    from that have "Posted m overflow_policy \<in> set (filter by_destructor (history s))"
      by simp
    then have "m = async_msg_tag_only terminate"
      unfolding d by auto
    then show ?thesis
      by simp
  qed
  have pnm: "process_next_msg ndebug' fe' (this, w) =
      (Inr False, this\<lparr>m_q := (m_q this)\<lparr>items := rest\<rparr>\<rparr>, w)"
    if "items (m_q this) = m # rest \<and> msg_type m = terminate" for m rest
    using that by (simp add: process_next_msg_def dequeue_for_def tags_distinct)
  from q h posted pnm show ?thesis
    unfolding queue_ok_def by auto
qed

theorem terminate_envelope_null_target_witness:
  "boot 4 2 no_hook [] = Some fresh_system
   \<and> run False recording_front_end (busy_schedule @ rest_schedule) fresh_system = Some torn_down
   \<and> Dequeued 0 terminate_envelope \<in> set (history torn_down)
   \<and> Posted terminate_envelope block \<in> set (history torn_down)
   \<and> worker_ptr terminate_envelope = None
   \<and> process_next_msg False throwing_front_end
       (pool_holding 4 0 [terminate_envelope, hello_envelope] [Running], []) =
     (Inr False, pool_holding 4 0 [hello_envelope] [Running], [])"
proof -
  let ?P = "pool_holding 4 0 [terminate_envelope, hello_envelope] [Running]
    :: string list thread_pool"
  note t = terminate_envelope_null_target [OF boot_fresh_system run_whole_schedule,
      where this = ?P and ndebug' = False and fe' = throwing_front_end and w = "[]"]
  have d: "Dequeued 0 terminate_envelope \<in> set (history torn_down)"
    and p: "Posted terminate_envelope block \<in> set (history torn_down)"
    by (simp_all add: torn_down_def)
  have ty: "msg_type terminate_envelope = terminate"
    by (simp add: terminate_envelope_def)
  note t4 = t [THEN conjunct2, THEN conjunct2, THEN conjunct2, THEN conjunct1, rule_format]
  from d ty have null: "worker_ptr terminate_envelope = None"
    by (rule t4)
  have hd: "items (m_q ?P) = terminate_envelope # [hello_envelope]"
    by (simp add: pool_holding_def)
  note t5 = t [THEN conjunct2, THEN conjunct2, THEN conjunct2, THEN conjunct2, rule_format,
      of terminate_envelope "[hello_envelope]"]
  have "process_next_msg False throwing_front_end (?P, []) =
      (Inr False, ?P\<lparr>m_q := (m_q ?P)\<lparr>items := [hello_envelope]\<rparr>\<rparr>, [])"
    by (rule t5) (simp add: hd ty)
  then have pnm: "process_next_msg False throwing_front_end (?P, []) =
      (Inr False, pool_holding 4 0 [hello_envelope] [Running], [])"
    by (simp add: pool_holding_def)
  from boot_fresh_system run_whole_schedule d p null pnm show ?thesis
    by blast
qed

subsection \<open>A teardown can always be completed\<close>

lemma start_thread:
  assumes r: "ready fe s" and inv: "pool_inv k s"
    and i: "i < k" and t: "m_threads (pool s) ! i = Starting h"
  shows "\<exists>s'. step ndebug fe (Worker i) s = Some s' \<and> ready fe s' \<and> pool_inv k s'
           \<and> dtor s' = dtor s \<and> m_q (pool s') = m_q (pool s)
           \<and> m_threads (pool s') = (m_threads (pool s))[i := Running]"
proof -
  from inv have len: "length (m_threads (pool s)) = k"
    by (simp add: pool_inv_def)
  with i t have "Starting h \<in> set (m_threads (pool s))"
    by (metis nth_mem)
  with r have "fst (h (outside s)) = None"
    by (simp add: ready_def)
  then obtain w' where h: "h (outside s) = (None, w')"
    by (cases "h (outside s)") auto
  let ?s' = "s\<lparr>pool := (pool s)\<lparr>m_threads := (m_threads (pool s))[i := Running]\<rparr>,
               outside := w'\<rparr>"
  from r have ok: "aborted s = None"
    by (simp add: ready_def)
  with i len t h have st: "step ndebug fe (Worker i) s = Some ?s'"
    by (simp add: step_def worker_step_def)
  then have "pool_inv k ?s'"
    using inv by (rule step_pool_inv)
  moreover have "ready fe ?s'"
    using r by (auto simp: ready_def dest: set_update_subset_insert [THEN subsetD])
  ultimately show ?thesis
    using st by (intro exI [of _ ?s']) simp
qed

lemma consume_head:
  assumes r: "ready fe s" and inv: "pool_inv k s"
    and i: "i < k" and t: "m_threads (pool s) ! i = Running"
    and q: "items (m_q (pool s)) = m # rest"
  shows "\<exists>s'. step ndebug fe (Worker i) s = Some s' \<and> ready fe s' \<and> pool_inv k s'
           \<and> dtor s' = dtor s \<and> items (m_q (pool s')) = rest
           \<and> max_items (m_q (pool s')) = max_items (m_q (pool s))
           \<and> m_threads (pool s') =
               (m_threads (pool s))[i := (if msg_type m = terminate then Exited else Running)]"
proof -
  from inv have len: "length (m_threads (pool s)) = k"
    and qok: "queue_ok (items (m_q (pool s)))"
    by (simp_all add: pool_inv_def)
  from r have ok: "aborted s = None" and c: "calm fe"
    and tg: "msg_type m \<noteq> terminate \<longrightarrow> worker_ptr m \<noteq> None"
    by (simp_all add: ready_def q)
  from qok q have tag: "msg_type m = log \<or> msg_type m = flush \<or> msg_type m = terminate"
    by (simp add: queue_ok_def)
  let ?popped = "(pool s)\<lparr>m_q := (m_q (pool s))\<lparr>items := rest\<rparr>\<rparr>"
  have "\<exists>w'. process_next_msg ndebug fe (pool s, outside s) =
          (Inr (msg_type m \<noteq> terminate), ?popped, w')"
  proof -
    consider (l) "msg_type m = log" | (f) "msg_type m = flush" | (t) "msg_type m = terminate"
      using tag by blast
    then show ?thesis
    proof cases
      case l
      with tg obtain a where a: "worker_ptr m = Some a"
        by (auto simp: tags_distinct)
      from c have "fst (backend_sink_it fe a (log_msg_buffer.truncate m) (outside s)) = None"
        by (simp add: calm_def)
      then obtain w' where
        "backend_sink_it fe a (log_msg_buffer.truncate m) (outside s) = (None, w')"
        by (cases "backend_sink_it fe a (log_msg_buffer.truncate m) (outside s)") auto
      with l a q show ?thesis
        by (simp add: process_next_msg_def dequeue_for_def tags_distinct)
    next
      case f
      with tg obtain a where a: "worker_ptr m = Some a"
        by (auto simp: tags_distinct)
      from c have "fst (backend_flush fe a (outside s)) = None"
        by (simp add: calm_def)
      then obtain w' where "backend_flush fe a (outside s) = (None, w')"
        by (cases "backend_flush fe a (outside s)") auto
      with f a q show ?thesis
        by (simp add: process_next_msg_def dequeue_for_def tags_distinct)
    next
      case t
      with q show ?thesis
        by (simp add: process_next_msg_def dequeue_for_def tags_distinct)
    qed
  qed
  then obtain w' where p: "process_next_msg ndebug fe (pool s, outside s) =
      (Inr (msg_type m \<noteq> terminate), ?popped, w')"
    by blast
  from ok i len t p q obtain s' where st: "step ndebug fe (Worker i) s = Some s'"
    and s': "pool s' = ?popped\<lparr>m_threads :=
               (m_threads (pool s))[i := (if msg_type m = terminate then Exited else Running)]\<rparr>"
      "dtor s' = dtor s" "aborted s' = None"
    by (cases "msg_type m = terminate")
       (auto simp: step_def worker_step_def list_update_same_conv [THEN iffD2])
  from st inv have "pool_inv k s'"
    by (rule step_pool_inv)
  moreover have "ready fe s'"
    using r s' q
    by (auto simp: ready_def dest: set_update_subset_insert [THEN subsetD] split: if_splits)
  ultimately show ?thesis
    using st s' by (intro exI [of _ s']) simp
qed

lemma gone_le_1: "gone t \<le> 1"
  by (cases t) simp_all

lemma gone_0_iff: "gone t = 0 \<longleftrightarrow> t = Running \<or> (\<exists>h. t = Starting h)"
  by (cases t) simp_all

lemma sum_gone_le: "sum_list (map gone ts) \<le> length ts"
proof (induction ts)
  case Nil
  then show ?case by simp
next
  case (Cons t ts)
  with gone_le_1 [of t] show ?case by simp
qed

lemma sum_gone_less:
  "j < length ts \<Longrightarrow> gone (ts ! j) = 0 \<Longrightarrow> sum_list (map gone ts) < length ts"
proof (induction ts arbitrary: j)
  case Nil
  then show ?case by simp
next
  case (Cons t ts)
  show ?case
  proof (cases j)
    case 0
    with Cons.prems sum_gone_le [of ts] show ?thesis by simp
  next
    case (Suc j')
    with Cons.prems have "sum_list (map gone ts) < length ts"
      by (intro Cons.IH [of j']) simp_all
    with gone_le_1 [of t] show ?thesis by simp
  qed
qed

lemma some_thread_left:
  "sum_list (map gone ts) < length ts \<Longrightarrow> \<exists>i < length ts. gone (ts ! i) = 0"
proof (induction ts)
  case Nil
  then show ?case by simp
next
  case (Cons t ts)
  show ?case
  proof (cases "gone t = 0")
    case True
    then show ?thesis by (intro exI [of _ 0]) simp
  next
    case False
    with gone_le_1 [of t] have "gone t = 1" by simp
    with Cons.prems have "sum_list (map gone ts) < length ts" by simp
    then obtain i where "i < length ts" "gone (ts ! i) = 0"
      using Cons.IH by blast
    then show ?thesis by (intro exI [of _ "Suc i"]) simp
  qed
qed

lemma running_thread:
  assumes r: "ready fe s" and inv: "pool_inv k s" and i: "i < k"
    and g: "gone (m_threads (pool s) ! i) = 0"
  shows "\<exists>bs s'. run ndebug fe bs s = Some s' \<and> ready fe s' \<and> pool_inv k s'
           \<and> dtor s' = dtor s \<and> m_q (pool s') = m_q (pool s)
           \<and> m_threads (pool s') ! i = Running"
proof (cases "m_threads (pool s) ! i = Running")
  case True
  with r inv show ?thesis
    by (intro exI [of _ "[]"] exI [of _ s]) simp
next
  case False
  with g obtain h where "m_threads (pool s) ! i = Starting h"
    by (auto simp: gone_0_iff)
  from start_thread [OF r inv i this, of ndebug] obtain s' where
    s': "step ndebug fe (Worker i) s = Some s'" "ready fe s'" "pool_inv k s'"
      "dtor s' = dtor s" "m_q (pool s') = m_q (pool s)"
      "m_threads (pool s') = (m_threads (pool s))[i := Running]"
    by blast
  from inv i have "i < length (m_threads (pool s))"
    by (simp add: pool_inv_def)
  with s'(6) have "m_threads (pool s') ! i = Running"
    by simp
  with s' show ?thesis
    by (intro exI [of _ "[Worker i]"] exI [of _ s']) simp
qed

lemma run_then:
  assumes "run ndebug fe as s = Some s1" and "run ndebug fe bs s1 = Some s2"
  shows "run ndebug fe (as @ bs) s = Some s2"
  using assms by (simp add: run_append)

lemma drain_to_exit:
  assumes "length (items (m_q (pool s))) = n"
    and "ready fe s" and "pool_inv k s" and "i < k"
    and "m_threads (pool s) ! i = Running"
    and "0 < terminates_queued (pool s)"
  shows "\<exists>bs s'. run ndebug fe bs s = Some s' \<and> ready fe s' \<and> pool_inv k s'
           \<and> dtor s' = dtor s \<and> m_threads (pool s') ! i = Exited"
  using assms
proof (induction n arbitrary: s)
  case 0
  then show ?case
    by (simp add: terminates_queued_def)
next
  case (Suc n)
  from Suc.prems(1) obtain m rest where q: "items (m_q (pool s)) = m # rest"
    and n: "length rest = n"
    by (cases "items (m_q (pool s))") auto
  from Suc.prems(3,4) have il: "i < length (m_threads (pool s))"
    by (simp add: pool_inv_def)
  from consume_head [OF Suc.prems(2,3,4,5) q, of ndebug] obtain s1 where
    s1: "step ndebug fe (Worker i) s = Some s1" "ready fe s1" "pool_inv k s1"
      "dtor s1 = dtor s" "items (m_q (pool s1)) = rest"
      "m_threads (pool s1) =
         (m_threads (pool s))[i := (if msg_type m = terminate then Exited else Running)]"
    by blast
  show ?case
  proof (cases "msg_type m = terminate")
    case True
    with s1(6) il have "m_threads (pool s1) ! i = Exited"
      by simp
    with s1 show ?thesis
      by (intro exI [of _ "[Worker i]"] exI [of _ s1]) simp
  next
    case False
    with s1(6) il have t: "m_threads (pool s1) ! i = Running"
      by simp
    from False Suc.prems(6) q s1(5) have "0 < terminates_queued (pool s1)"
      by (simp add: terminates_queued_def)
    from Suc.IH [OF _ s1(2,3) Suc.prems(4) t this] s1(5) n
    obtain bs s' where "run ndebug fe bs s1 = Some s'" "ready fe s'" "pool_inv k s'"
      "dtor s' = dtor s1" "m_threads (pool s') ! i = Exited"
      by auto
    with s1(1,4) show ?thesis
      by (intro exI [of _ "Worker i # bs"] exI [of _ s']) simp
  qed
qed

lemma reach_exit:
  assumes r: "ready fe s" and inv: "pool_inv k s" and i: "i < k"
    and g: "gone (m_threads (pool s) ! i) = 0"
    and t: "0 < terminates_queued (pool s)"
  shows "\<exists>bs s'. run ndebug fe bs s = Some s' \<and> ready fe s' \<and> pool_inv k s'
           \<and> dtor s' = dtor s \<and> m_threads (pool s') ! i = Exited"
proof -
  from running_thread [OF r inv i g, of ndebug] obtain as s1 where
    s1: "run ndebug fe as s = Some s1" "ready fe s1" "pool_inv k s1" "dtor s1 = dtor s"
      "m_q (pool s1) = m_q (pool s)" "m_threads (pool s1) ! i = Running"
    by blast
  from t s1(5) have "0 < terminates_queued (pool s1)"
    by (simp add: terminates_queued_def)
  from drain_to_exit [OF refl s1(2,3) i s1(6) this, of ndebug] obtain bs s' where
    s': "run ndebug fe bs s1 = Some s'" "ready fe s'" "pool_inv k s'" "dtor s' = dtor s1"
      "m_threads (pool s') ! i = Exited"
    by blast
  from run_then [OF s1(1) s'(1)] s' s1(4) show ?thesis
    by (intro exI [of _ "as @ bs"] exI [of _ s']) simp
qed

lemma join_step:
  assumes r: "ready fe s" and inv: "pool_inv k s"
    and pc: "dtor s = Joining j" and j: "j < k"
    and t: "m_threads (pool s) ! j = Exited"
  shows "\<exists>s'. step ndebug fe Destructor s = Some s' \<and> ready fe s' \<and> pool_inv k s'
           \<and> dtor s' = Joining (j + 1)"
proof -
  from inv have len: "length (m_threads (pool s)) = k"
    by (simp add: pool_inv_def)
  let ?s' = "s\<lparr>pool := (pool s)\<lparr>m_threads := (m_threads (pool s))[j := Joined]\<rparr>,
               dtor := Joining (j + 1), history := history s @ [Joined_thread j]\<rparr>"
  from r have "aborted s = None"
    by (simp add: ready_def)
  with pc j len t have st: "step ndebug fe Destructor s = Some ?s'"
    by (simp add: step_def destructor_step_def)
  then have "pool_inv k ?s'"
    using inv by (rule step_pool_inv)
  moreover have "ready fe ?s'"
    using r by (auto simp: ready_def dest: set_update_subset_insert [THEN subsetD])
  ultimately show ?thesis
    using st by (intro exI [of _ ?s']) simp
qed

lemma join_phase:
  assumes "k - j = n" and "ready fe s" and "pool_inv k s" and "dtor s = Joining j"
  shows "\<exists>bs s'. run ndebug fe bs s = Some s' \<and> dtor s' = Destroyed \<and> aborted s' = None"
  using assms
proof (induction n arbitrary: s j)
  case 0
  from "0.prems"(3,4) have "j \<le> k" and len: "length (m_threads (pool s)) = k"
    by (simp_all add: pool_inv_def joins_made_def)
  with "0.prems"(1) have "j = k"
    by simp
  with "0.prems"(2,4) len have "step ndebug fe Destructor s = Some (s\<lparr>dtor := Destroyed\<rparr>)"
    by (simp add: step_def destructor_step_def ready_def)
  with "0.prems"(2) show ?case
    by (intro exI [of _ "[Destructor]"] exI [of _ "s\<lparr>dtor := Destroyed\<rparr>"])
       (simp add: ready_def)
next
  case (Suc n)
  from Suc.prems(1) have j: "j < k"
    by simp
  from Suc.prems(3) have len: "length (m_threads (pool s)) = k"
    by (simp add: pool_inv_def)
  have "\<exists>as s1. run ndebug fe as s = Some s1 \<and> ready fe s1 \<and> pool_inv k s1
          \<and> dtor s1 = Joining j \<and> m_threads (pool s1) ! j = Exited"
  proof (cases "m_threads (pool s) ! j = Exited")
    case True
    with Suc.prems show ?thesis
      by (intro exI [of _ "[]"] exI [of _ s]) simp
  next
    case False
    from Suc.prems(3,4) j have "m_threads (pool s) ! j \<noteq> Joined"
      by (simp add: pool_inv_def joins_made_def)
    with False have g: "gone (m_threads (pool s) ! j) = 0"
      by (cases "m_threads (pool s) ! j") simp_all
    with j len have "sum_list (map gone (m_threads (pool s))) < k"
      using sum_gone_less [of j "m_threads (pool s)"] by simp
    moreover from Suc.prems(3,4) have
      "terminates_queued (pool s) + sum_list (map gone (m_threads (pool s))) = k"
      by (simp add: pool_inv_def posts_made_def)
    ultimately have "0 < terminates_queued (pool s)"
      by simp
    from reach_exit [OF Suc.prems(2,3) j g this, of ndebug] Suc.prems(4) show ?thesis
      by auto
  qed
  then obtain as s1 where s1: "run ndebug fe as s = Some s1" "ready fe s1" "pool_inv k s1"
    "dtor s1 = Joining j" "m_threads (pool s1) ! j = Exited"
    by blast
  from join_step [OF s1(2,3,4) j s1(5), of ndebug] obtain s2 where
    s2: "step ndebug fe Destructor s1 = Some s2" "ready fe s2" "pool_inv k s2"
      "dtor s2 = Joining (j + 1)"
    by blast
  from Suc.prems(1) have "k - (j + 1) = n"
    by simp
  from Suc.IH [OF this s2(2,3,4)] obtain bs s' where
    s': "run ndebug fe bs s2 = Some s'" "dtor s' = Destroyed" "aborted s' = None"
    by blast
  from s2(1) s'(1) have "run ndebug fe (Destructor # bs) s1 = Some s'"
    by simp
  from run_then [OF s1(1) this] s'(2,3) show ?case
    by blast
qed

lemma make_room:
  assumes "length (items (m_q (pool s))) = n"
    and "ready fe s" and "pool_inv k s" and "dtor s = Posting i" and "i < k"
  shows "\<exists>bs s'. run ndebug fe bs s = Some s' \<and> ready fe s' \<and> pool_inv k s'
           \<and> dtor s' = Posting i \<and> \<not> full (m_q (pool s'))"
  using assms
proof (induction n arbitrary: s)
  case 0
  then have "\<not> full (m_q (pool s))"
    by (simp add: full_def ready_def)
  with "0.prems" show ?case
    by (intro exI [of _ "[]"] exI [of _ s]) simp
next
  case (Suc n)
  show ?case
  proof (cases "full (m_q (pool s))")
    case False
    with Suc.prems show ?thesis
      by (intro exI [of _ "[]"] exI [of _ s]) simp
  next
    case True
    from Suc.prems(1) obtain m rest where q: "items (m_q (pool s)) = m # rest"
      and n: "length rest = n"
      by (cases "items (m_q (pool s))") auto
    from Suc.prems(3) have len: "length (m_threads (pool s)) = k"
      by (simp add: pool_inv_def)
    from Suc.prems(3,4) have
      "terminates_queued (pool s) + sum_list (map gone (m_threads (pool s))) = i"
      by (simp add: pool_inv_def posts_made_def)
    with Suc.prems(5) len have "sum_list (map gone (m_threads (pool s))) < length (m_threads (pool s))"
      by simp
    from some_thread_left [OF this] len obtain x where x: "x < k"
      and g: "gone (m_threads (pool s) ! x) = 0"
      by auto
    from running_thread [OF Suc.prems(2,3) x g, of ndebug] obtain as s1 where
      s1: "run ndebug fe as s = Some s1" "ready fe s1" "pool_inv k s1" "dtor s1 = dtor s"
        "m_q (pool s1) = m_q (pool s)" "m_threads (pool s1) ! x = Running"
      by blast
    from q s1(5) have q1: "items (m_q (pool s1)) = m # rest"
      by simp
    from consume_head [OF s1(2,3) x s1(6) q1, of ndebug] obtain s2 where
      s2: "step ndebug fe (Worker x) s1 = Some s2" "ready fe s2" "pool_inv k s2"
        "dtor s2 = dtor s1" "items (m_q (pool s2)) = rest"
      by blast
    from s2(4) s1(4) Suc.prems(4) have pc: "dtor s2 = Posting i"
      by simp
    from s2(5) n have "length (items (m_q (pool s2))) = n"
      by simp
    from Suc.IH [OF this s2(2,3) pc Suc.prems(5)] obtain bs s' where
      s': "run ndebug fe bs s2 = Some s'" "ready fe s'" "pool_inv k s'"
        "dtor s' = Posting i" "\<not> full (m_q (pool s'))"
      by blast
    from s2(1) s'(1) have "run ndebug fe (Worker x # bs) s1 = Some s'"
      by simp
    from run_then [OF s1(1) this] s'(2,3,4,5) show ?thesis
      by blast
  qed
qed

lemma post_step:
  assumes r: "ready fe s" and inv: "pool_inv k s"
    and pc: "dtor s = Posting i" and i: "i < k" and room: "\<not> full (m_q (pool s))"
  shows "\<exists>s'. step ndebug fe Destructor s = Some s' \<and> ready fe s' \<and> pool_inv k s'
           \<and> dtor s' = Posting (i + 1)"
proof -
  from inv have len: "length (m_threads (pool s)) = k"
    by (simp add: pool_inv_def)
  let ?this' = "(pool s)\<lparr>m_q := (m_q (pool s))
      \<lparr>items := items (m_q (pool s)) @ [async_msg_tag_only terminate]\<rparr>\<rparr>"
  let ?s' = "s\<lparr>pool := ?this', dtor := Posting (i + 1),
      history := history s @ [Posted (async_msg_tag_only terminate) block]\<rparr>"
  from room have "post_async_msg (async_msg_tag_only terminate) block (pool s) = Some ?this'"
    by (simp add: post_async_msg_def enqueue_def)
  moreover from r have "aborted s = None"
    by (simp add: ready_def)
  ultimately have st: "step ndebug fe Destructor s = Some ?s'"
    using pc i len by (simp add: step_def destructor_step_def)
  then have "pool_inv k ?s'"
    using inv by (rule step_pool_inv)
  moreover have "ready fe ?s'"
    using r by (auto simp: ready_def)
  ultimately show ?thesis
    using st by (intro exI [of _ ?s']) simp
qed

lemma post_phase:
  assumes "k - i = n" and "ready fe s" and "pool_inv k s" and "dtor s = Posting i"
  shows "\<exists>bs s'. run ndebug fe bs s = Some s' \<and> ready fe s' \<and> pool_inv k s'
           \<and> dtor s' = Joining 0"
  using assms
proof (induction n arbitrary: s i)
  case 0
  from "0.prems"(3,4) have "i \<le> k" and len: "length (m_threads (pool s)) = k"
    by (simp_all add: pool_inv_def posts_made_def)
  with "0.prems"(1) have "i = k"
    by simp
  with "0.prems"(2,4) len have st: "step ndebug fe Destructor s = Some (s\<lparr>dtor := Joining 0\<rparr>)"
    by (simp add: step_def destructor_step_def ready_def)
  then have "pool_inv k (s\<lparr>dtor := Joining 0\<rparr>)"
    using "0.prems"(3) by (rule step_pool_inv)
  moreover from "0.prems"(2) have "ready fe (s\<lparr>dtor := Joining 0\<rparr>)"
    by (simp add: ready_def)
  ultimately show ?case
    using st by (intro exI [of _ "[Destructor]"] exI [of _ "s\<lparr>dtor := Joining 0\<rparr>"]) simp
next
  case (Suc n)
  from Suc.prems(1) have i: "i < k"
    by simp
  from make_room [OF refl Suc.prems(2,3,4) i, of ndebug] obtain as s1 where
    s1: "run ndebug fe as s = Some s1" "ready fe s1" "pool_inv k s1" "dtor s1 = Posting i"
      "\<not> full (m_q (pool s1))"
    by blast
  from post_step [OF s1(2,3,4) i s1(5), of ndebug] obtain s2 where
    s2: "step ndebug fe Destructor s1 = Some s2" "ready fe s2" "pool_inv k s2"
      "dtor s2 = Posting (i + 1)"
    by blast
  from Suc.prems(1) have "k - (i + 1) = n"
    by simp
  from Suc.IH [OF this s2(2,3,4)] obtain bs s' where
    s': "run ndebug fe bs s2 = Some s'" "ready fe s'" "pool_inv k s'" "dtor s' = Joining 0"
    by blast
  from s2(1) s'(1) have "run ndebug fe (Destructor # bs) s1 = Some s'"
    by simp
  from run_then [OF s1(1) this] s'(2,3,4) show ?case
    by blast
qed

lemma teardown_completes:
  assumes r: "ready fe s" and inv: "pool_inv k s"
  shows "\<exists>bs s'. run ndebug fe bs s = Some s' \<and> dtor s' = Destroyed \<and> aborted s' = None"
proof -
  have from_posting: "\<exists>bs s'. run ndebug fe bs t = Some s' \<and> dtor s' = Destroyed \<and> aborted s' = None"
    if t: "ready fe t" "pool_inv k t" "dtor t = Posting i" for t i
  proof -
    from post_phase [OF refl t, of ndebug] obtain as s1 where
      s1: "run ndebug fe as t = Some s1" "ready fe s1" "pool_inv k s1" "dtor s1 = Joining 0"
      by blast
    from join_phase [OF refl s1(2,3,4), of ndebug] obtain bs s' where
      s': "run ndebug fe bs s1 = Some s'" "dtor s' = Destroyed" "aborted s' = None"
      by blast
    from run_then [OF s1(1) s'(1)] s'(2,3) show ?thesis
      by blast
  qed
  show ?thesis
  proof (cases "dtor s")
    case Alive
    with r have st: "step ndebug fe Destructor s = Some (s\<lparr>dtor := Posting 0\<rparr>)"
      by (simp add: step_def destructor_step_def ready_def)
    then have "pool_inv k (s\<lparr>dtor := Posting 0\<rparr>)"
      using inv by (rule step_pool_inv)
    moreover from r have "ready fe (s\<lparr>dtor := Posting 0\<rparr>)"
      by (simp add: ready_def)
    ultimately obtain bs s' where
      s': "run ndebug fe bs (s\<lparr>dtor := Posting 0\<rparr>) = Some s'" "dtor s' = Destroyed"
        "aborted s' = None"
      using from_posting [of "s\<lparr>dtor := Posting 0\<rparr>" 0] by auto
    from st s'(1) have "run ndebug fe (Destructor # bs) s = Some s'"
      by simp
    with s'(2,3) show ?thesis
      by blast
  next
    case (Posting i)
    with r inv show ?thesis
      by (rule from_posting)
  next
    case (Joining j)
    from join_phase [OF refl r inv this] show ?thesis .
  next
    case Destroyed
    with r show ?thesis
      by (intro exI [of _ "[]"] exI [of _ s]) (simp add: ready_def)
  qed
qed

subsection \<open>Teardown\<close>

text \<open>
  C2 as the spec states it (the destruction of every pool constructed with \<open>k\<close>
  workers submits \<open>k\<close> terminate envelopes and joins every worker, each worker
  receiving one terminate envelope and exiting once) does not hold.
  \<^item> The constructor accepts the capacity 0. In the pool of one worker built so, once
    the worker has started and the destructor has been entered, the destructor's
    blocking submission is suspended, the worker's iteration times out and leaves the
    state as it is, and no terminate envelope has been posted.
  \<^item> With the front end whose dispatch throws, the worker of a pool of capacity 4 is
    ended by the exception while the destructor is at its join: the terminate
    envelope stays in the queue, the worker has received none and has not returned,
    and neither the destructor nor the worker can take a step.
  \<^item> The same happens when the log envelope has the empty target, and when the start
    hook throws.
\<close>

theorem teardown_stuck_counterexample:
  "boot 0 1 no_hook [] = Some cramped_fresh
   \<and> run False recording_front_end [Worker 0, Destructor] cramped_fresh = Some cramped_system
   \<and> step False recording_front_end Destructor cramped_system = None
   \<and> step False recording_front_end (Worker 0) cramped_system = Some cramped_system
   \<and> history cramped_system = []
   \<and> boot 4 1 no_hook [] = Some single_fresh
   \<and> run False throwing_front_end wreck_schedule single_fresh = Some wrecked_system
   \<and> step False throwing_front_end Destructor wrecked_system = None
   \<and> step False throwing_front_end (Worker 0) wrecked_system = None
   \<and> dtor wrecked_system = Joining 0
   \<and> terminates_received 0 (history wrecked_system) = 0
   \<and> exits 0 (history wrecked_system) = 0
   \<and> run False recording_front_end orphan_schedule single_fresh = Some orphaned_system
   \<and> step False recording_front_end Destructor orphaned_system = None
   \<and> step False recording_front_end (Worker 0) orphaned_system = None
   \<and> boot 4 1 throwing_hook [] = Some hooked_fresh
   \<and> run False recording_front_end [Worker 0] hooked_fresh = Some hooked_system
   \<and> step False recording_front_end Destructor hooked_system = None
   \<and> step False recording_front_end (Worker 0) hooked_system = None"
proof -
  have u: "unat (0 :: size_t) = 0" "unat (4 :: size_t) = 4"
    by simp_all
  have b0: "boot 0 1 no_hook [] = Some cramped_fresh"
    and b4: "boot 4 1 no_hook [] = Some single_fresh"
    and bh: "boot 4 1 throwing_hook [] = Some hooked_fresh"
    by (simp_all add: boot_single u cramped_fresh_def single_fresh_def hooked_fresh_def)
  have cramped: "run False recording_front_end [Worker 0, Destructor] cramped_fresh =
      Some cramped_system"
    "step False recording_front_end Destructor cramped_system = None"
    "step False recording_front_end (Worker 0) cramped_system = Some cramped_system"
    "history cramped_system = []"
    by (simp_all add: cramped_fresh_def cramped_system_def step_defs pool_holding_def
          no_hook_def terminate_envelope_built)
  have wrecked: "run False throwing_front_end wreck_schedule single_fresh = Some wrecked_system"
    "step False throwing_front_end Destructor wrecked_system = None"
    "step False throwing_front_end (Worker 0) wrecked_system = None"
    "dtor wrecked_system = Joining 0"
    "terminates_received 0 (history wrecked_system) = 0"
    "exits 0 (history wrecked_system) = 0"
    by (simp_all add: wreck_schedule_def single_fresh_def wrecked_system_def step_defs
          pool_holding_def no_hook_def hello_envelope_built terminate_envelope_built
          envelope_defs throwing_front_end_def log_msg_buffer.truncate_def tags_distinct)
  have orphaned: "run False recording_front_end orphan_schedule single_fresh =
      Some orphaned_system"
    "step False recording_front_end Destructor orphaned_system = None"
    "step False recording_front_end (Worker 0) orphaned_system = None"
    by (simp_all add: orphan_schedule_def single_fresh_def orphaned_system_def step_defs
          pool_holding_def no_hook_def orphan_envelope_built terminate_envelope_built
          envelope_defs orphan_envelope_def tags_distinct)
  have hooked: "run False recording_front_end [Worker 0] hooked_fresh = Some hooked_system"
    "step False recording_front_end Destructor hooked_system = None"
    "step False recording_front_end (Worker 0) hooked_system = None"
    by (simp_all add: hooked_fresh_def hooked_system_def step_defs pool_holding_def
          throwing_hook_def)
  from b0 b4 bh cramped wrecked orphaned hooked show ?thesis
    by (intro conjI)
qed

text \<open>
  C2, amended: take a pool constructed with \<open>k\<close> worker threads and any interleaving
  of worker steps, submissions by producers and destructor steps. At every moment the
  destructor's calls so far are: its posts, every one the terminate envelope with the
  blocking policy (never the discarding one), followed by its joins, of the threads in
  the order of \<^verbatim>\<open>threads_\<close>; no thread is joined before all \<open>k\<close> posts are made; every
  worker has received at most one terminate envelope and has returned from its thread
  function exactly as often, namely once if it has exited and never otherwise. When the
  destructor has finished it has posted exactly \<open>k\<close> terminate envelopes and then
  joined all \<open>k\<close> threads, and each worker has received exactly one terminate
  envelope and exited exactly once. The destructor need not finish; but from every
  such state that is \<open>ready\<close> (no thread function left by an exception, a queue of
  positive capacity, no throwing start hook or front-end operation, a target in every
  queued log or flush envelope) some continuation of the run ends with the destructor
  finished, so no reachable ready state is a deadlock.
\<close>

theorem destructor_protocol:
  assumes "boot q_max_items threads_n on_thread_start w0 = Some s0"
    and "run ndebug fe schedule s0 = Some s"
  shows "length (m_threads (pool s)) = unat threads_n
       \<and> filter by_destructor (history s) =
           replicate (posts_made (unat threads_n) (dtor s))
             (Posted (async_msg_tag_only terminate) block)
           @ map Joined_thread [0..<joins_made (unat threads_n) (dtor s)]
       \<and> posts_made (unat threads_n) (dtor s) \<le> unat threads_n
       \<and> joins_made (unat threads_n) (dtor s) \<le> unat threads_n
       \<and> (0 < joins_made (unat threads_n) (dtor s) \<longrightarrow>
            posts_made (unat threads_n) (dtor s) = unat threads_n)
       \<and> (dtor s = Destroyed \<longrightarrow>
            filter by_destructor (history s) =
              replicate (unat threads_n) (Posted (async_msg_tag_only terminate) block)
              @ map Joined_thread [0..<unat threads_n])
       \<and> (\<forall>i < unat threads_n.
            terminates_received i (history s) = exits i (history s)
            \<and> exits i (history s) \<le> 1
            \<and> (exits i (history s) = 1 \<longleftrightarrow>
                 m_threads (pool s) ! i = Exited \<or> m_threads (pool s) ! i = Joined)
            \<and> (dtor s = Destroyed \<longrightarrow>
                 m_threads (pool s) ! i = Joined
                 \<and> terminates_received i (history s) = 1
                 \<and> exits i (history s) = 1))
       \<and> (ready fe s \<longrightarrow>
            (\<exists>rest s'. run ndebug fe rest s = Some s' \<and> dtor s' = Destroyed
               \<and> aborted s' = None))"
proof -
  let ?k = "unat threads_n"
  from assms have inv: "pool_inv ?k s"
    by (blast intro: run_pool_inv boot_pool_inv)
  then have len: "length (m_threads (pool s)) = ?k"
    and d: "filter by_destructor (history s) =
       replicate (posts_made ?k (dtor s)) (Posted (async_msg_tag_only terminate) block)
       @ map Joined_thread [0..<joins_made ?k (dtor s)]"
    and np: "posts_made ?k (dtor s) \<le> ?k"
    and nj: "joins_made ?k (dtor s) \<le> ?k"
    and jn: "\<forall>i<?k. m_threads (pool s) ! i = Joined \<longleftrightarrow> i < joins_made ?k (dtor s)"
    and cnt: "\<forall>i<?k. terminates_received i (history s) = gone (m_threads (pool s) ! i)
          \<and> exits i (history s) = gone (m_threads (pool s) ! i)"
    by (simp_all add: pool_inv_def)
  have order: "0 < joins_made ?k (dtor s) \<longrightarrow> posts_made ?k (dtor s) = ?k"
    by (cases "dtor s") (simp_all add: posts_made_def joins_made_def)
  have fin: "dtor s = Destroyed \<longrightarrow>
      filter by_destructor (history s) =
        replicate ?k (Posted (async_msg_tag_only terminate) block)
        @ map Joined_thread [0..<?k]"
    using d by (simp add: posts_made_def joins_made_def)
  have each: "terminates_received i (history s) = exits i (history s)
      \<and> exits i (history s) \<le> 1
      \<and> (exits i (history s) = 1 \<longleftrightarrow>
           m_threads (pool s) ! i = Exited \<or> m_threads (pool s) ! i = Joined)
      \<and> (dtor s = Destroyed \<longrightarrow>
           m_threads (pool s) ! i = Joined
           \<and> terminates_received i (history s) = 1
           \<and> exits i (history s) = 1)"
    if "i < ?k" for i
  proof -
    from cnt that have c: "terminates_received i (history s) = gone (m_threads (pool s) ! i)"
      "exits i (history s) = gone (m_threads (pool s) ! i)"
      by simp_all
    have g: "gone t \<le> 1 \<and> (gone t = 1 \<longleftrightarrow> t = Exited \<or> t = Joined)" for t :: "'a thread"
      by (cases t) simp_all
    have "dtor s = Destroyed \<longrightarrow> m_threads (pool s) ! i = Joined"
      using jn that by (simp add: joins_made_def)
    with c g [of "m_threads (pool s) ! i"] show ?thesis
      by auto
  qed
  have live: "ready fe s \<longrightarrow>
      (\<exists>rest s'. run ndebug fe rest s = Some s' \<and> dtor s' = Destroyed \<and> aborted s' = None)"
    using inv by (blast intro: teardown_completes)
  from len d np nj order fin each live show ?thesis
    by blast
qed

theorem destructor_protocol_witness:
  "boot 4 2 no_hook [] = Some fresh_system
   \<and> run False recording_front_end (busy_schedule @ rest_schedule) fresh_system = Some torn_down
   \<and> dtor torn_down = Destroyed
   \<and> filter by_destructor (history torn_down) =
       [Posted terminate_envelope block, Posted terminate_envelope block,
        Joined_thread 0, Joined_thread 1]
   \<and> terminates_received 0 (history torn_down) = 1
   \<and> terminates_received 1 (history torn_down) = 1
   \<and> exits 0 (history torn_down) = 1
   \<and> exits 1 (history torn_down) = 1
   \<and> run False recording_front_end busy_schedule fresh_system = Some busy_system
   \<and> (\<exists>rest s'. run False recording_front_end rest busy_system = Some s'
         \<and> dtor s' = Destroyed \<and> aborted s' = None)"
proof -
  have "ready recording_front_end busy_system"
    by (simp add: ready_def calm_def busy_system_def pool_holding_def recording_front_end_def
          envelope_defs tags_distinct)
  with destructor_protocol [OF boot_fresh_system run_busy_schedule]
  have live: "\<exists>rest s'. run False recording_front_end rest busy_system = Some s'
      \<and> dtor s' = Destroyed \<and> aborted s' = None"
    by blast
  note t = destructor_protocol [OF boot_fresh_system run_whole_schedule]
  have u: "unat (2 :: size_t) = 2"
    by simp
  have fin: "dtor torn_down = Destroyed"
    by (simp add: torn_down_def)
  have r: "replicate 2 x = [x, x]" for x :: event
    by (simp add: numeral_2_eq_2)
  have m: "map Joined_thread [0..<2] = [Joined_thread 0, Joined_thread 1]"
    by (simp add: upt_rec)
  from t fin have "filter by_destructor (history torn_down) =
      replicate (unat (2 :: size_t)) (Posted (async_msg_tag_only terminate) block)
      @ map Joined_thread [0..<unat (2 :: size_t)]"
    by blast
  then have h: "filter by_destructor (history torn_down) =
      [Posted terminate_envelope block, Posted terminate_envelope block,
       Joined_thread 0, Joined_thread 1]"
    unfolding u r m terminate_envelope_built by simp
  from t have "\<forall>i < unat (2 :: size_t). dtor torn_down = Destroyed \<longrightarrow>
      terminates_received i (history torn_down) = 1 \<and> exits i (history torn_down) = 1"
    by blast
  with fin have "\<forall>i < 2. terminates_received i (history torn_down) = 1
      \<and> exits i (history torn_down) = 1"
    unfolding u by blast
  then have "terminates_received 0 (history torn_down) = 1
      \<and> exits 0 (history torn_down) = 1
      \<and> terminates_received 1 (history torn_down) = 1
      \<and> exits 1 (history torn_down) = 1"
    by simp
  with boot_fresh_system run_whole_schedule run_busy_schedule fin h live show ?thesis
    by blast
qed

subsection \<open>Submission during teardown\<close>

text \<open>
  C5 as the spec states it (a submission attempted after shutdown has begun fails fast,
  reporting a "pool stopped" condition) does not hold: in the state \<open>busy_system\<close>,
  reached from the construction of a pool, the destructor has begun and has posted its
  two terminate envelopes; there \<^verbatim>\<open>post_flush\<close> under the discard policy returns
  normally with nothing reported, the envelope discarded and counted; and on the same
  queue content in a pool with room for one more envelope, \<^verbatim>\<open>post_log\<close> returns
  normally with the log envelope put into the queue behind the terminate envelopes.
\<close>

theorem post_log_after_shutdown_counterexample:
  "run False recording_front_end busy_schedule fresh_system = Some busy_system
   \<and> dtor busy_system = Posting 2
   \<and> post_log (memory_of ''app hello'') (Some 7) hello block
       (pool_holding 5 0
          [hello_envelope, terminate_envelope, flush_envelope, terminate_envelope]
          [Running :: string list thread, Running]) =
     Some (None,
           pool_holding 5 0
             [hello_envelope, terminate_envelope, flush_envelope, terminate_envelope,
              hello_envelope]
             [Running, Running])
   \<and> step False recording_front_end
       (Producer_flush (Some 7) discard_on_full) busy_system =
     Some (busy_system\<lparr>pool := pool_holding 4 1
             [hello_envelope, terminate_envelope, flush_envelope, terminate_envelope]
             [Running, Running]\<rparr>)"
  by (simp add: run_busy_schedule busy_system_def step_defs pool_holding_def
        hello_envelope_built flush_envelope_built)

text \<open>
  C5, amended: \<^verbatim>\<open>post_log\<close> and \<^verbatim>\<open>post_flush\<close> do not look at whether shutdown has
  begun, and report nothing. While the destructor is running (it has begun and has not
  finished), a submission does what the overflow policy says and changes nothing but
  the queue: when the queue has room the envelope is enqueued and the call returns;
  when the queue is full, the call under the discard policy returns at once with the
  overrun counter incremented, and the call under the block policy suspends the
  producer. This is exactly what the same submission does before shutdown has begun.
\<close>

theorem submission_ignores_shutdown:
  assumes "dtor s = Posting i \<or> dtor s = Joining j"
    and "aborted s = None"
    and "(a = Producer_log mem worker msg overflow_policy
            \<and> e = fst (async_msg_from_log mem worker log msg))
         \<or> (a = Producer_flush worker overflow_policy
            \<and> e = fst (async_msg_of_type worker flush))"
  shows "step ndebug fe a s =
           (if full (m_q (pool s))
            then (if overflow_policy = block then None
                  else Some (s\<lparr>pool := (pool s)\<lparr>m_q := (m_q (pool s))
                          \<lparr>overrun_count := overrun_count (m_q (pool s)) + 1\<rparr>\<rparr>\<rparr>))
            else Some (s\<lparr>pool := (pool s)\<lparr>m_q := (m_q (pool s))
                          \<lparr>items := items (m_q (pool s)) @ [e]\<rparr>\<rparr>\<rparr>))
       \<and> step ndebug fe a (s\<lparr>dtor := Alive\<rparr>) =
           (case step ndebug fe a s of
              None \<Rightarrow> None
            | Some s' \<Rightarrow> Some (s'\<lparr>dtor := Alive\<rparr>))"
proof -
  have post: "post_async_msg e overflow_policy this =
      (if full (m_q this)
       then (if overflow_policy = block then None
             else Some (this\<lparr>m_q := (m_q this)\<lparr>overrun_count := overrun_count (m_q this) + 1\<rparr>\<rparr>))
       else Some (this\<lparr>m_q := (m_q this)\<lparr>items := items (m_q this) @ [e]\<rparr>\<rparr>))"
    for this :: "'a thread_pool"
    by (simp add: post_async_msg_def enqueue_def enqueue_nowait_def)
  have call: "step ndebug fe a t =
      producer_step (case post_async_msg e overflow_policy (pool t) of
                       None \<Rightarrow> None
                     | Some this' \<Rightarrow> Some (None, this')) t"
    if "aborted t = None" for t
    using assms(3) that
    by (auto simp: step_def post_log_def post_flush_def async_msg_from_log_def
          async_msg_of_type_def move_ptr_def Let_def)
  from assms(1) have alive: "dtor s \<noteq> Destroyed"
    by auto
  have first: "step ndebug fe a s =
           (if full (m_q (pool s))
            then (if overflow_policy = block then None
                  else Some (s\<lparr>pool := (pool s)\<lparr>m_q := (m_q (pool s))
                          \<lparr>overrun_count := overrun_count (m_q (pool s)) + 1\<rparr>\<rparr>\<rparr>))
            else Some (s\<lparr>pool := (pool s)\<lparr>m_q := (m_q (pool s))
                          \<lparr>items := items (m_q (pool s)) @ [e]\<rparr>\<rparr>\<rparr>))"
    using alive by (simp add: call [OF assms(2)] post producer_step_def)
  have "step ndebug fe a (s\<lparr>dtor := Alive\<rparr>) =
           (if full (m_q (pool s))
            then (if overflow_policy = block then None
                  else Some (s\<lparr>dtor := Alive, pool := (pool s)\<lparr>m_q := (m_q (pool s))
                          \<lparr>overrun_count := overrun_count (m_q (pool s)) + 1\<rparr>\<rparr>\<rparr>))
            else Some (s\<lparr>dtor := Alive, pool := (pool s)\<lparr>m_q := (m_q (pool s))
                          \<lparr>items := items (m_q (pool s)) @ [e]\<rparr>\<rparr>\<rparr>))"
    using assms(2) by (simp add: call post producer_step_def)
  then have second: "step ndebug fe a (s\<lparr>dtor := Alive\<rparr>) =
           (case step ndebug fe a s of
              None \<Rightarrow> None
            | Some s' \<Rightarrow> Some (s'\<lparr>dtor := Alive\<rparr>))"
    by (simp add: first)
  from first second show ?thesis
    by (rule conjI)
qed

theorem submission_ignores_shutdown_witness:
  "dtor busy_system = Posting 2
   \<and> aborted busy_system = None
   \<and> full (m_q (pool busy_system))
   \<and> step False recording_front_end
       (Producer_log (memory_of ''app hello'') (Some 7) hello block) busy_system = None
   \<and> step False recording_front_end
       (Producer_log (memory_of ''app hello'') (Some 7) hello discard_on_full) busy_system =
     Some (busy_system\<lparr>pool := pool_holding 4 1
             [hello_envelope, terminate_envelope, flush_envelope, terminate_envelope]
             [Running, Running]\<rparr>)"
proof -
  have pc: "dtor busy_system = Posting 2 \<or> dtor busy_system = Joining 0"
    and pc': "dtor busy_system = Posting 2"
    and ok: "aborted busy_system = None"
    and f: "full (m_q (pool busy_system))"
    by (simp_all add: busy_system_def pool_holding_def full_def)
  have e: "Producer_log (memory_of ''app hello'') (Some 7) hello overflow_policy =
        Producer_log (memory_of ''app hello'') (Some 7) hello overflow_policy
        \<and> hello_envelope = fst (async_msg_from_log (memory_of ''app hello'') (Some 7) log hello)
      \<or> Producer_log (memory_of ''app hello'') (Some 7) hello overflow_policy =
        Producer_flush (Some 7) overflow_policy
        \<and> hello_envelope = fst (async_msg_of_type (Some 7) flush)"
    for overflow_policy
    by (simp add: hello_envelope_built)
  note t = submission_ignores_shutdown [where ndebug = False and fe = recording_front_end,
      OF pc ok e, THEN conjunct1]
  have "step False recording_front_end
       (Producer_log (memory_of ''app hello'') (Some 7) hello block) busy_system = None"
    using t [of block] f by simp
  moreover have "step False recording_front_end
       (Producer_log (memory_of ''app hello'') (Some 7) hello discard_on_full) busy_system =
     Some (busy_system\<lparr>pool := pool_holding 4 1
             [hello_envelope, terminate_envelope, flush_envelope, terminate_envelope]
             [Running, Running]\<rparr>)"
    using t [of discard_on_full] f by (simp add: busy_system_def pool_holding_def)
  ultimately show ?thesis
    using pc' ok f by blast
qed

subsection \<open>Every envelope is consumed once\<close>

lemma dequeued_envelopes_simps [simp]:
  "dequeued_envelopes [] = []"
  "dequeued_envelopes (h @ h') = dequeued_envelopes h @ dequeued_envelopes h'"
  "dequeued_envelopes (Dequeued i m # h) = m # dequeued_envelopes h"
  "dequeued_envelopes (Posted m overflow_policy # h) = dequeued_envelopes h"
  "dequeued_envelopes (Joined_thread j # h) = dequeued_envelopes h"
  "dequeued_envelopes (Returned i # h) = dequeued_envelopes h"
  by (simp_all add: dequeued_envelopes_def)

lemma kept_refused_simps [simp]:
  "kept [] = []" "refused [] = []"
  "kept (subs @ subs') = kept subs @ kept subs'"
  "refused (subs @ subs') = refused subs @ refused subs'"
  "kept [(e, overflow_policy, was_full)] = (if was_full then [] else [e])"
  "refused [(e, overflow_policy, was_full)] =
     (if was_full then [(e, overflow_policy, was_full)] else [])"
  by (simp_all add: kept_def refused_def)










end
